theory Spec2Isabelle
  imports Complex_Main
begin

section \<open>Vectors and matrices\<close>

text \<open>
  A 1-D tensor is a list of reals; a 2-D tensor \<open>Ds\<close> of shape \<open>(p, q)\<close> is the list of its
  \<open>q\<close> columns, each a vector of length \<open>p\<close>.  Floating point numbers are idealised as
  reals.  A division by zero, which produces \<open>nan\<close> in the source, is the value
  \<open>Inl NonFinite\<close> of the model; the exceptions of the source are the other errors.
  The theorems are about what the rounding of the source does not change: the shape of
  the results, the control flow of the loops, the clipping and the signs.
\<close>

type_synonym vec = "real list"
type_synonym matrix = "real list list"

datatype error = IndexError | ShapeError | NonFinite | AssertionError

definition dot :: "vec \<Rightarrow> vec \<Rightarrow> real" where
  "dot u v = sum_list (map2 (*) u v)"

text \<open>
  Modelled from the spec: \<open>HelperFuncs.Norm2\<close> is not among the sources.  The spec gives
  it as the squared Euclidean norm, used as the raw value with no fudge factor added.
\<close>

definition Norm2 :: "vec \<Rightarrow> real" where
  "Norm2 v = dot v v"

definition vadd :: "vec \<Rightarrow> vec \<Rightarrow> vec" where
  "vadd u v = map2 (+) u v"

definition vsub :: "vec \<Rightarrow> vec \<Rightarrow> vec" where
  "vsub u v = map2 (-) u v"

definition smul :: "real \<Rightarrow> vec \<Rightarrow> vec" where
  "smul c v = map ((*) c) v"

definition vdiv :: "vec \<Rightarrow> real \<Rightarrow> vec" where
  "vdiv v c = map (\<lambda>x. x / c) v"

text \<open>\<open>Psi.T @ d\<close>: the dot product of every column of \<open>Psi\<close> with \<open>d\<close>.\<close>

definition matTvec :: "matrix \<Rightarrow> vec \<Rightarrow> vec" where
  "matTvec A d = map (\<lambda>c. dot c d) A"

text \<open>\<open>Psi_n @ w\<close> for a matrix of \<open>p\<close> rows: the combination of the columns weighted by \<open>w\<close>.\<close>

definition matvec :: "nat \<Rightarrow> matrix \<Rightarrow> vec \<Rightarrow> vec" where
  "matvec p A w = foldr (\<lambda>(c, wj) acc. vadd (smul wj c) acc) (zip A w) (replicate p 0)"

section \<open>ComputeERR\<close>

record basis_state =
  ERR :: "real list"
  Psi :: matrix
  Psi_n :: matrix

text \<open>The first iteration, treated separately by the source (lines 263 to 266).\<close>

definition ERR_first :: "vec \<Rightarrow> real \<Rightarrow> matrix \<Rightarrow> error + basis_state" where
  "ERR_first y s2y Ds =
     (if length Ds = 0 then Inl IndexError
      else let d = Ds ! 0; n_Omega = Norm2 d in
        if length d \<noteq> length y then Inl ShapeError
        else if n_Omega = 0 \<or> s2y = 0 then Inl NonFinite
        else Inr \<lparr> ERR = (replicate (length Ds) 0)[0 := (dot (vdiv d n_Omega) y)\<^sup>2 * n_Omega / s2y],
                   Psi = [d], Psi_n = [vdiv d n_Omega] \<rparr>)"

text \<open>The body of the loop for one column (lines 271 to 277).\<close>

definition ERR_step :: "vec \<Rightarrow> real \<Rightarrow> matrix \<Rightarrow> nat \<Rightarrow> basis_state \<Rightarrow> error + basis_state" where
  "ERR_step y s2y Ds col st =
     (let d = Ds ! col in
        if length d \<noteq> length y then Inl ShapeError
        else let Omega = vsub d (matvec (length y) (Psi_n st) (matTvec (Psi st) d));
                 n_Omega = Norm2 Omega in
          if n_Omega = 0 then Inl NonFinite
          else Inr \<lparr> ERR = (ERR st)[col := (dot Omega y / n_Omega)\<^sup>2 * n_Omega / s2y],
                     Psi = Psi st @ [Omega], Psi_n = Psi_n st @ [vdiv Omega n_Omega] \<rparr>)"

text \<open>The loop \<open>for col in range(1, Ds.shape[1])\<close> with its early exit (lines 268 to 279).\<close>

function ERR_loop :: "vec \<Rightarrow> real \<Rightarrow> matrix \<Rightarrow> nat \<Rightarrow> basis_state \<Rightarrow> error + real list" where
  "ERR_loop y s2y Ds col st =
     (if col < length Ds then
        (if 1 \<le> sum_list (take col (ERR st)) then Inr (ERR st)
         else case ERR_step y s2y Ds col st of
                Inl e \<Rightarrow> Inl e
              | Inr st' \<Rightarrow> ERR_loop y s2y Ds (Suc col) st')
      else Inr (ERR st))"
  by pat_completeness auto
termination
  by (relation "measure (\<lambda>(y, s2y, Ds, col, st). length Ds - col)") auto

declare ERR_loop.simps [simp del]

definition ComputeERR :: "vec \<Rightarrow> matrix \<Rightarrow> error + real list" where
  "ComputeERR y Ds =
     (case ERR_first y (dot y y) Ds of
        Inl e \<Rightarrow> Inl e
      | Inr st \<Rightarrow> ERR_loop y (dot y y) Ds 1 st)"

section \<open>The quantities the specification names\<close>

text \<open>A basis column divided by its squared norm, as stored in \<open>Psi_n\<close>.\<close>

definition nrm :: "vec \<Rightarrow> vec" where
  "nrm v = vdiv v (Norm2 v)"

text \<open>The projection of \<open>d\<close> onto the basis column \<open>b\<close>.\<close>

definition proj :: "vec \<Rightarrow> vec \<Rightarrow> vec" where
  "proj b d = smul (dot b d / Norm2 b) b"

text \<open>The raw column minus its projections onto every accumulated basis column.\<close>

definition orthogonalize :: "matrix \<Rightarrow> vec \<Rightarrow> vec" where
  "orthogonalize B d = foldl (\<lambda>acc b. vsub acc (proj b d)) d B"

text \<open>The basis accumulated from the columns in their order; the first column is taken as it is.\<close>

definition GramSchmidt :: "matrix \<Rightarrow> matrix" where
  "GramSchmidt Ds = foldl (\<lambda>B d. B @ [orthogonalize B d]) [] Ds"

text \<open>The error reduction ratio of an orthogonalized column \<open>Omega\<close>.\<close>

definition ERR_of :: "vec \<Rightarrow> vec \<Rightarrow> real" where
  "ERR_of y Omega = (dot Omega y / Norm2 Omega)\<^sup>2 * Norm2 Omega / dot y y"

text \<open>What holds of the state when the loop is about to look at column \<open>col\<close>.\<close>

definition loop_inv :: "vec \<Rightarrow> matrix \<Rightarrow> nat \<Rightarrow> basis_state \<Rightarrow> bool" where
  "loop_inv y Ds col st \<longleftrightarrow>
     1 \<le> col \<and> col \<le> length Ds \<and> dot y y \<noteq> 0
     \<and> Psi st = GramSchmidt (take col Ds) \<and> Psi_n st = map nrm (Psi st)
     \<and> ERR st = map (ERR_of y) (Psi st) @ replicate (length Ds - col) 0
     \<and> (\<forall>c \<in> set (Psi st). length c = length y \<and> Norm2 c \<noteq> 0)
     \<and> (\<forall>d \<in> set (take col Ds). length d = length y)"

text \<open>
  The returned vector when exactly the first \<open>k\<close> columns were processed: their ratios,
  then zeros; the loop went on while the running sum was below 1 and stopped before the
  end only on a running sum of at least 1.
\<close>

definition ERR_result :: "vec \<Rightarrow> matrix \<Rightarrow> nat \<Rightarrow> real list \<Rightarrow> bool" where
  "ERR_result y Ds k E \<longleftrightarrow>
     1 \<le> k \<and> k \<le> length Ds \<and> dot y y \<noteq> 0
     \<and> E = map (ERR_of y) (GramSchmidt (take k Ds)) @ replicate (length Ds - k) 0
     \<and> (\<forall>c \<in> set (GramSchmidt (take k Ds)). length c = length y \<and> Norm2 c \<noteq> 0)
     \<and> (\<forall>d \<in> set (take k Ds). length d = length y)
     \<and> (k < length Ds \<longrightarrow> 1 \<le> sum_list (map (ERR_of y) (GramSchmidt (take k Ds))))
     \<and> (\<forall>j. 1 \<le> j \<and> j < k \<longrightarrow> sum_list (map (ERR_of y) (GramSchmidt (take j Ds))) < 1)"

section \<open>The collaborators and the centering\<close>

text \<open>
  \<open>CTors.Lagger\<close> and \<open>CTors.Expander\<close> are not among the sources: the estimators take them
  as parameters.  \<open>Lagger (x, y) (nb, na)\<close> gives the cut output, the matrix of lagged
  regressors and their names; \<open>Expander RegMat RegNames order\<close> gives the expanded matrix
  and its names.
\<close>

type_synonym lagger = "vec \<times> vec \<Rightarrow> nat \<times> nat \<Rightarrow> vec \<times> matrix \<times> string list"
type_synonym expander = "matrix \<Rightarrow> string list \<Rightarrow> nat \<Rightarrow> matrix \<times> string list"

definition mean :: "vec \<Rightarrow> real" where
  "mean v = sum_list v / real (length v)"

text \<open>\<open>y_cut - y_cut.mean()\<close>.\<close>

definition center :: "vec \<Rightarrow> vec" where
  "center v = map (\<lambda>x. x - mean v) v"

text \<open>\<open>RegMat - RegMat.mean(axis = 0, keepdims = True)\<close>: every column minus its own mean.\<close>

definition center_columns :: "matrix \<Rightarrow> matrix" where
  "center_columns M = map center M"

text \<open>
  \<open>min(1.0, np.sum(ERR))\<close>.  When a division by zero made the vector \<open>nan\<close>, the sum is
  \<open>nan\<close>, the comparison \<open>nan < 1.0\<close> of Python's \<open>min\<close> is false and the value is 1.0;
  an exception of ComputeERR goes on to the caller.
\<close>

definition clipped_sum :: "error + real list \<Rightarrow> error + real" where
  "clipped_sum r =
     (case r of
        Inl e \<Rightarrow> (if e = NonFinite then Inr 1 else Inl e)
      | Inr E \<Rightarrow> Inr (min 1 (sum_list E)))"

section \<open>ExpansionOrderEstimator\<close>

text \<open>The explained variance of the model of one expansion order (lines 318 and 321).\<close>

definition ModelErr :: "expander \<Rightarrow> vec \<Rightarrow> matrix \<Rightarrow> string list \<Rightarrow> nat \<Rightarrow> error + real" where
  "ModelErr Expander y_cut RegMat RegNames ModelOrder =
     (let RegMatTMP = fst (Expander RegMat RegNames ModelOrder)
      in clipped_sum (ComputeERR y_cut (center_columns RegMatTMP)))"

text \<open>
  The loop over \<open>range(1, MaxOrder + 1)\<close> with its \<open>break\<close> (lines 316 to 324).  The
  argument before the list of variances is the value the loop variable holds.
\<close>

fun order_loop ::
  "expander \<Rightarrow> vec \<Rightarrow> matrix \<Rightarrow> string list \<Rightarrow> real \<Rightarrow> nat list \<Rightarrow> nat \<Rightarrow> real list
   \<Rightarrow> error + nat \<times> real list" where
  "order_loop Expander y_cut RegMat RegNames thr [] ModelOrder MEV = Inr (ModelOrder, MEV)"
| "order_loop Expander y_cut RegMat RegNames thr (k # ks) ModelOrder MEV =
     (case ModelErr Expander y_cut RegMat RegNames k of
        Inl e \<Rightarrow> Inl e
      | Inr v \<Rightarrow>
          (let MEV' = MEV @ [v]
           in if thr \<le> last MEV' then Inr (k, MEV')
              else order_loop Expander y_cut RegMat RegNames thr ks k MEV'))"

text \<open>
  The signals are 1-D by their type, so of the checks of lines 302 to 304 the equal shapes
  and the order of at least 1 remain.  Plotting is left out.
\<close>

definition ExpansionOrderEstimator ::
  "lagger \<Rightarrow> expander \<Rightarrow> vec \<Rightarrow> vec \<Rightarrow> nat \<times> nat \<Rightarrow> int \<Rightarrow> real \<Rightarrow> error + nat \<times> real list" where
  "ExpansionOrderEstimator Lagger Expander x y MaxLags MaxOrder VarianceAcceptThreshold =
     (if length x \<noteq> length y then Inl AssertionError
      else if MaxOrder < 1 then Inl AssertionError
      else case Lagger (x, y) MaxLags of (y_cut, RegMat, RegNames) \<Rightarrow>
        order_loop Expander (center y_cut) RegMat RegNames VarianceAcceptThreshold
          [1..<nat MaxOrder + 1] 0 [0])"

section \<open>MaxLagsEstimator\<close>

text \<open>
  The grid has a row for every output lag \<open>na\<close> and a column for every input lag \<open>nb\<close>;
  a cell holds \<open>None\<close> for the \<open>nan\<close> it starts with.
\<close>

type_synonym grid = "real option list list"

definition new_grid :: "nat \<times> nat \<Rightarrow> grid" where
  "new_grid MaxLags = replicate (snd MaxLags + 1) (replicate (fst MaxLags + 1) None)"

definition grid_set :: "grid \<Rightarrow> nat \<Rightarrow> nat \<Rightarrow> real option \<Rightarrow> grid" where
  "grid_set G na nb v = G[na := (G ! na)[nb := v]]"

text \<open>The variance of the model with exactly the lags \<open>(nb, na)\<close> (lines 397 to 401).\<close>

definition cell_value :: "lagger \<Rightarrow> expander \<Rightarrow> vec \<Rightarrow> vec \<Rightarrow> nat \<Rightarrow> nat \<Rightarrow> nat \<Rightarrow> error + real" where
  "cell_value Lagger Expander x y ModelOrder nb na =
     (case Lagger (x, y) (nb, na) of (y_cut, RegMat, RegNames) \<Rightarrow>
        (case Expander RegMat RegNames ModelOrder of (RegMat', RegNames') \<Rightarrow>
           clipped_sum (ComputeERR (center y_cut) (center_columns RegMat'))))"

text \<open>The body of the two loops (lines 393 to 401).\<close>

definition fill_cell ::
  "lagger \<Rightarrow> expander \<Rightarrow> vec \<Rightarrow> vec \<Rightarrow> nat \<Rightarrow> grid \<Rightarrow> nat \<Rightarrow> nat \<Rightarrow> error + grid" where
  "fill_cell Lagger Expander x y ModelOrder G na nb =
     (if G ! nat (max (int na - 1) 0) ! nb = Some 1 \<and> G ! na ! nat (max (int nb - 1) 0) = Some 1
      then Inr (grid_set G na nb (Some 1))
      else case cell_value Lagger Expander x y ModelOrder nb na of
             Inl e \<Rightarrow> Inl e
           | Inr v \<Rightarrow> Inr (grid_set G na nb (Some v)))"

fun fill_row ::
  "lagger \<Rightarrow> expander \<Rightarrow> vec \<Rightarrow> vec \<Rightarrow> nat \<Rightarrow> nat \<Rightarrow> nat list \<Rightarrow> grid \<Rightarrow> error + grid" where
  "fill_row Lagger Expander x y ModelOrder na [] G = Inr G"
| "fill_row Lagger Expander x y ModelOrder na (nb # nbs) G =
     (case fill_cell Lagger Expander x y ModelOrder G na nb of
        Inl e \<Rightarrow> Inl e
      | Inr G' \<Rightarrow> fill_row Lagger Expander x y ModelOrder na nbs G')"

fun fill_grid ::
  "lagger \<Rightarrow> expander \<Rightarrow> vec \<Rightarrow> vec \<Rightarrow> nat \<Rightarrow> nat \<times> nat \<Rightarrow> nat list \<Rightarrow> grid \<Rightarrow> error + grid" where
  "fill_grid Lagger Expander x y ModelOrder MaxLags [] G = Inr G"
| "fill_grid Lagger Expander x y ModelOrder MaxLags (na # nas) G =
     (case fill_row Lagger Expander x y ModelOrder na [0..<fst MaxLags + 1] G of
        Inl e \<Rightarrow> Inl e
      | Inr G' \<Rightarrow> fill_grid Lagger Expander x y ModelOrder MaxLags nas G')"

text \<open>\<open>Grid[na, nb] > VarianceAcceptThreshold\<close>; a comparison with \<open>nan\<close> is false.\<close>

definition exceeds :: "real \<Rightarrow> real option \<Rightarrow> bool" where
  "exceeds thr c = (case c of None \<Rightarrow> False | Some v \<Rightarrow> thr < v)"

text \<open>\<open>np.argmax\<close> of a Boolean array: the first index of a true entry, 0 when there is none.\<close>

definition argmax_bool :: "bool list \<Rightarrow> nat" where
  "argmax_bool bs = (let i = length (takeWhile Not bs) in if i < length bs then i else 0)"

record recommendations =
  Min_XY :: "nat \<times> nat"
  Min_X :: "nat \<times> nat"
  Min_Y :: "nat \<times> nat"

text \<open>
  The scan for the smallest \<open>na + nb\<close> (lines 412 to 419); \<open>BestIdx\<close> is \<open>None\<close> for the
  infinity it starts with.
\<close>

fun scan_XY :: "grid \<Rightarrow> real \<Rightarrow> (nat \<times> nat) list \<Rightarrow> nat option \<times> (nat \<times> nat) \<Rightarrow> nat option \<times> (nat \<times> nat)" where
  "scan_XY G thr [] acc = acc"
| "scan_XY G thr ((na, nb) # ps) (BestIdx, rec) =
     (if exceeds thr (G ! na ! nb) \<and> (case BestIdx of None \<Rightarrow> True | Some b \<Rightarrow> na + nb < b)
      then scan_XY G thr ps (Some (na + nb), (nb, na))
      else scan_XY G thr ps (BestIdx, rec))"

text \<open>The scan over the rows for \<open>Min_Y\<close> (lines 421 to 423).\<close>

fun scan_Y :: "grid \<Rightarrow> real \<Rightarrow> nat list \<Rightarrow> nat \<times> nat \<Rightarrow> nat \<times> nat" where
  "scan_Y G thr [] rec = rec"
| "scan_Y G thr (na # nas) rec =
     (let BestIdx = argmax_bool (map (exceeds thr) (G ! na))
      in if BestIdx \<noteq> 0 then (BestIdx, na) else scan_Y G thr nas rec)"

text \<open>The scan over the columns for \<open>Min_X\<close> (lines 425 to 427).\<close>

fun scan_X :: "grid \<Rightarrow> real \<Rightarrow> nat list \<Rightarrow> nat \<times> nat \<Rightarrow> nat \<times> nat" where
  "scan_X G thr [] rec = rec"
| "scan_X G thr (nb # nbs) rec =
     (let BestIdx = argmax_bool (map (\<lambda>row. exceeds thr (row ! nb)) G)
      in if BestIdx \<noteq> 0 then (nb, BestIdx) else scan_X G thr nbs rec)"

definition recommend :: "grid \<Rightarrow> nat \<times> nat \<Rightarrow> real \<Rightarrow> recommendations" where
  "recommend G MaxLags thr =
     \<lparr> Min_XY = snd (scan_XY G thr
                  (concat (map (\<lambda>na. map (\<lambda>nb. (na, nb)) [0..<fst MaxLags + 1]) [0..<snd MaxLags + 1]))
                  (None, MaxLags)),
       Min_X = scan_X G thr [0..<fst MaxLags + 1] MaxLags,
       Min_Y = scan_Y G thr [0..<snd MaxLags + 1] MaxLags \<rparr>"

text \<open>\<open>np.max(Grid)\<close>; it is \<open>nan\<close>, here \<open>None\<close>, when a cell is.\<close>

definition grid_max :: "grid \<Rightarrow> real option" where
  "grid_max G =
     (let cs = concat G
      in if None \<in> set cs then None else Some (fold max (map the (tl cs)) (the (hd cs))))"

text \<open>The test of line 430 that prints the warning.\<close>

definition warns :: "grid \<Rightarrow> real \<Rightarrow> bool" where
  "warns G thr = (case grid_max G of None \<Rightarrow> False | Some m \<Rightarrow> m < thr)"

record lags_output =
  Recommendations :: recommendations
  Grid :: grid
  Warning :: bool

text \<open>
  MaxLagsEstimator without its plot: the checks of lines 373 to 377, the fill of the grid,
  the recommendations and the warning, which is part of the result here.
\<close>

definition MaxLagsEstimator ::
  "lagger \<Rightarrow> expander \<Rightarrow> vec \<Rightarrow> vec \<Rightarrow> int \<Rightarrow> nat \<times> nat \<Rightarrow> real \<Rightarrow> bool \<Rightarrow> string option
   \<Rightarrow> error + lags_output" where
  "MaxLagsEstimator Lagger Expander x y ModelOrder MaxLags VarianceAcceptThreshold Plot SaveFig =
     (if length x \<noteq> length y then Inl AssertionError
      else if ModelOrder < 1 then Inl AssertionError
      else if SaveFig \<noteq> None \<and> \<not> Plot then Inl AssertionError
      else case fill_grid Lagger Expander x y (nat ModelOrder) MaxLags [0..<snd MaxLags + 1]
                  (new_grid MaxLags) of
             Inl e \<Rightarrow> Inl e
           | Inr G \<Rightarrow> Inr \<lparr> Recommendations = recommend G MaxLags VarianceAcceptThreshold,
                           Grid = G, Warning = warns G VarianceAcceptThreshold \<rparr>)"

text \<open>
  What a filled cell holds: 1 when the cell one output lag lower and the cell one input
  lag lower both exist and hold 1, the variance of the model with exactly these lags
  otherwise.
\<close>

definition cell_ok ::
  "lagger \<Rightarrow> expander \<Rightarrow> vec \<Rightarrow> vec \<Rightarrow> nat \<Rightarrow> grid \<Rightarrow> nat \<Rightarrow> nat \<Rightarrow> bool" where
  "cell_ok Lagger Expander x y ModelOrder G na nb \<longleftrightarrow>
     (\<exists>v. G ! na ! nb = Some v
        \<and> (if 0 < na \<and> 0 < nb \<and> G ! (na - 1) ! nb = Some 1 \<and> G ! na ! (nb - 1) = Some 1
            then v = 1
            else cell_value Lagger Expander x y ModelOrder nb na = Inr v))"

text \<open>
  The grid when the loops are about to fill the cell \<open>(na, nb)\<close>: the cells before it in the
  order of the loops are filled, the others still hold \<open>nan\<close>.
\<close>

definition fill_inv ::
  "lagger \<Rightarrow> expander \<Rightarrow> vec \<Rightarrow> vec \<Rightarrow> nat \<Rightarrow> nat \<times> nat \<Rightarrow> grid \<Rightarrow> nat \<Rightarrow> nat \<Rightarrow> bool" where
  "fill_inv Lagger Expander x y ModelOrder MaxLags G na nb \<longleftrightarrow>
     length G = snd MaxLags + 1 \<and> (\<forall>row \<in> set G. length row = fst MaxLags + 1)
     \<and> (\<forall>a b. a \<le> snd MaxLags \<and> b \<le> fst MaxLags \<longrightarrow>
           (if a < na \<or> (a = na \<and> b < nb)
            then cell_ok Lagger Expander x y ModelOrder G a b
            else G ! a ! b = None))"

section \<open>Vector algebra\<close>

lemma dot_Nil [simp]: "dot [] v = 0" "dot u [] = 0"
  by (simp_all add: dot_def)

lemma dot_Cons [simp]: "dot (a # u) (b # v) = a * b + dot u v"
  by (simp add: dot_def)

lemma dot_commute: "dot u v = dot v u"
proof (induction u arbitrary: v)
  case Nil
  show ?case by simp
next
  case (Cons a u)
  then show ?case by (cases v) simp_all
qed

lemma dot_smul_left: "dot (smul c u) v = c * dot u v"
proof (induction u arbitrary: v)
  case Nil
  show ?case by (simp add: smul_def)
next
  case (Cons a u)
  then show ?case by (cases v) (simp_all add: smul_def algebra_simps)
qed

lemma dot_smul_right: "dot u (smul c v) = c * dot u v"
  by (metis dot_commute dot_smul_left)

lemma dot_vdiv_left: "dot (vdiv u c) v = dot u v / c"
proof (induction u arbitrary: v)
  case Nil
  show ?case by (simp add: vdiv_def)
next
  case (Cons a u)
  then show ?case by (cases v) (simp_all add: vdiv_def add_divide_distrib)
qed

lemma dot_vsub_left:
  "length a = length b \<Longrightarrow> dot (vsub a b) v = dot a v - dot b v"
proof (induction a b arbitrary: v rule: list_induct2)
  case Nil
  show ?case by (simp add: vsub_def)
next
  case (Cons x xs y ys)
  then show ?case by (cases v) (simp_all add: vsub_def algebra_simps)
qed

lemma dot_vadd_left:
  "length a = length b \<Longrightarrow> dot (vadd a b) v = dot a v + dot b v"
proof (induction a b arbitrary: v rule: list_induct2)
  case Nil
  show ?case by (simp add: vadd_def)
next
  case (Cons x xs y ys)
  then show ?case by (cases v) (simp_all add: vadd_def algebra_simps)
qed

lemma dot_vsub_right:
  "length a = length b \<Longrightarrow> dot v (vsub a b) = dot v a - dot v b"
  by (metis dot_commute dot_vsub_left)

lemma dot_replicate_zero [simp]: "dot (replicate p 0) v = 0"
proof (induction p arbitrary: v)
  case 0
  show ?case by simp
next
  case (Suc p)
  then show ?case by (cases v) simp_all
qed

lemma length_vsub [simp]: "length (vsub a b) = min (length a) (length b)"
  by (simp add: vsub_def)

lemma length_vadd [simp]: "length (vadd a b) = min (length a) (length b)"
  by (simp add: vadd_def)

lemma length_smul [simp]: "length (smul c v) = length v"
  by (simp add: smul_def)

lemma length_vdiv [simp]: "length (vdiv v c) = length v"
  by (simp add: vdiv_def)

lemma Norm2_nonneg: "0 \<le> Norm2 v"
  by (induction v) (simp_all add: Norm2_def)

lemma matvec_Nil [simp]: "matvec p [] w = replicate p 0" "matvec p A [] = replicate p 0"
  by (simp_all add: matvec_def)

lemma matvec_Cons [simp]:
  "matvec p (c # A) (x # w) = vadd (smul x c) (matvec p A w)"
  by (simp add: matvec_def)

lemma length_matvec:
  "\<forall>c \<in> set A. length c = p \<Longrightarrow> length (matvec p A w) = p"
proof (induction A arbitrary: w)
  case Nil
  show ?case by simp
next
  case (Cons c A)
  then show ?case by (cases w) simp_all
qed

lemma dot_matvec:
  "\<forall>c \<in> set A. length c = p \<Longrightarrow>
   dot (matvec p A w) v = sum_list (map2 (\<lambda>c x. x * dot c v) A w)"
proof (induction A arbitrary: w)
  case Nil
  show ?case by simp
next
  case (Cons c A)
  show ?case
  proof (cases w)
    case Nil
    then show ?thesis by simp
  next
    case (Cons x w')
    have "length (smul x c) = length (matvec p A w')"
      using Cons.prems by (simp add: length_matvec)
    then show ?thesis
      using Cons.IH [of w'] Cons.prems Cons
      by (simp add: dot_vadd_left dot_smul_left)
  qed
qed

lemma dot_projection:
  assumes "\<forall>c \<in> set B. length c = p"
  shows "dot (matvec p (map nrm B) (matTvec B d)) v
         = sum_list (map (\<lambda>c. dot c d * (dot c v / Norm2 c)) B)"
proof -
  have "\<forall>c \<in> set (map nrm B). length c = p"
    using assms by (simp add: nrm_def)
  then have "dot (matvec p (map nrm B) (matTvec B d)) v
        = sum_list (map2 (\<lambda>c x. x * dot c v) (map nrm B) (matTvec B d))"
    by (rule dot_matvec)
  also have "\<dots> = sum_list (map (\<lambda>c. dot c d * (dot c v / Norm2 c)) B)"
    by (induction B) (simp_all add: matTvec_def nrm_def dot_vdiv_left)
  finally show ?thesis .
qed

section \<open>The loop computes the Gram-Schmidt basis\<close>

lemma matvec_nth:
  "\<forall>c \<in> set A. length c = p \<Longrightarrow> i < p \<Longrightarrow>
   matvec p A w ! i = sum_list (map2 (\<lambda>c x. x * c ! i) A w)"
proof (induction A arbitrary: w)
  case Nil
  then show ?case by simp
next
  case (Cons c A)
  show ?case
  proof (cases w)
    case Nil
    with Cons.prems show ?thesis by simp
  next
    case (Cons x w')
    have "length (matvec p A w') = p"
      using Cons.prems by (simp add: length_matvec)
    then show ?thesis
      using Cons.IH [of w'] Cons.prems Cons
      by (simp add: vadd_def smul_def)
  qed
qed

lemma projection_nth:
  assumes "\<forall>c \<in> set B. length c = p" and "i < p"
  shows "matvec p (map nrm B) (matTvec B d) ! i
         = sum_list (map (\<lambda>b. dot b d / Norm2 b * b ! i) B)"
proof -
  have "\<forall>c \<in> set (map nrm B). length c = p"
    using assms by (simp add: nrm_def)
  then have "matvec p (map nrm B) (matTvec B d) ! i
        = sum_list (map2 (\<lambda>c x. x * c ! i) (map nrm B) (matTvec B d))"
    using \<open>i < p\<close> by (rule matvec_nth)
  also have "\<dots> = sum_list (map (\<lambda>b. dot b d / Norm2 b * b ! i) B)"
    using assms by (induction B) (simp_all add: matTvec_def nrm_def vdiv_def)
  finally show ?thesis .
qed

lemma length_foldl_vsub:
  "\<forall>c \<in> set B. length c = length a \<Longrightarrow>
   length (foldl (\<lambda>acc b. vsub acc (proj b d)) a B) = length a"
  by (induction B arbitrary: a) (simp_all add: proj_def)

lemma foldl_vsub_nth:
  "\<forall>c \<in> set B. length c = length a \<Longrightarrow> i < length a \<Longrightarrow>
   foldl (\<lambda>acc b. vsub acc (proj b d)) a B ! i
   = a ! i - sum_list (map (\<lambda>b. dot b d / Norm2 b * b ! i) B)"
proof (induction B arbitrary: a)
  case Nil
  then show ?case by simp
next
  case (Cons b B)
  have "foldl (\<lambda>acc b. vsub acc (proj b d)) (vsub a (proj b d)) B ! i
        = vsub a (proj b d) ! i - sum_list (map (\<lambda>b. dot b d / Norm2 b * b ! i) B)"
    using Cons.prems by (intro Cons.IH) (simp_all add: proj_def)
  then show ?case
    using Cons.prems by (simp add: vsub_def proj_def smul_def)
qed

lemma length_orthogonalize:
  "\<forall>c \<in> set B. length c = length d \<Longrightarrow> length (orthogonalize B d) = length d"
  unfolding orthogonalize_def by (rule length_foldl_vsub)

lemma Omega_eq_orthogonalize:
  assumes "\<forall>c \<in> set B. length c = length d"
  shows "vsub d (matvec (length d) (map nrm B) (matTvec B d)) = orthogonalize B d"
proof (rule nth_equalityI)
  have len: "length (matvec (length d) (map nrm B) (matTvec B d)) = length d"
    using assms by (intro length_matvec) (simp add: nrm_def)
  show "length (vsub d (matvec (length d) (map nrm B) (matTvec B d)))
        = length (orthogonalize B d)"
    using assms len by (simp add: length_orthogonalize)
  fix i
  assume "i < length (vsub d (matvec (length d) (map nrm B) (matTvec B d)))"
  then have i: "i < length d" using len by simp
  have "vsub d (matvec (length d) (map nrm B) (matTvec B d)) ! i
        = d ! i - matvec (length d) (map nrm B) (matTvec B d) ! i"
    using i len by (simp add: vsub_def)
  also have "\<dots> = d ! i - sum_list (map (\<lambda>b. dot b d / Norm2 b * b ! i) B)"
    using assms i by (simp only: projection_nth)
  also have "\<dots> = orthogonalize B d ! i"
    unfolding orthogonalize_def using assms i by (simp only: foldl_vsub_nth)
  finally show "vsub d (matvec (length d) (map nrm B) (matTvec B d)) ! i = orthogonalize B d ! i" .
qed

lemma GramSchmidt_Nil [simp]: "GramSchmidt [] = []"
  by (simp add: GramSchmidt_def)

lemma GramSchmidt_snoc:
  "GramSchmidt (Ds @ [d]) = GramSchmidt Ds @ [orthogonalize (GramSchmidt Ds) d]"
  by (simp add: GramSchmidt_def)

lemma length_GramSchmidt [simp]: "length (GramSchmidt Ds) = length Ds"
  by (induction Ds rule: rev_induct) (simp_all add: GramSchmidt_snoc)

lemma GramSchmidt_single: "GramSchmidt [d] = [d]"
  by (simp add: GramSchmidt_def orthogonalize_def)

lemma GramSchmidt_take_Suc:
  "k < length Ds \<Longrightarrow>
   GramSchmidt (take (Suc k) Ds)
   = GramSchmidt (take k Ds) @ [orthogonalize (GramSchmidt (take k Ds)) (Ds ! k)]"
  by (simp add: take_Suc_conv_app_nth GramSchmidt_snoc)

lemma GramSchmidt_append_take:
  "take (length Ds) (GramSchmidt (Ds @ Es)) = GramSchmidt Ds"
proof (induction Es rule: rev_induct)
  case Nil
  show ?case by simp
next
  case (snoc e Es)
  have "GramSchmidt (Ds @ Es @ [e]) = GramSchmidt (Ds @ Es) @ [orthogonalize (GramSchmidt (Ds @ Es)) e]"
    using GramSchmidt_snoc [of "Ds @ Es" e] by simp
  then show ?case using snoc by simp
qed

lemma take_GramSchmidt: "take k (GramSchmidt Ds) = GramSchmidt (take k Ds)"
proof (cases "k \<le> length Ds")
  case True
  have "take (length (take k Ds)) (GramSchmidt (take k Ds @ drop k Ds)) = GramSchmidt (take k Ds)"
    by (rule GramSchmidt_append_take)
  then show ?thesis using True by (simp add: min_absorb2)
next
  case False
  then show ?thesis by simp
qed

lemma GramSchmidt_nth:
  "k < length Ds \<Longrightarrow> GramSchmidt Ds ! k = orthogonalize (GramSchmidt (take k Ds)) (Ds ! k)"
proof -
  assume k: "k < length Ds"
  have "GramSchmidt Ds ! k = take (Suc k) (GramSchmidt Ds) ! k" by simp
  also have "\<dots> = GramSchmidt (take (Suc k) Ds) ! k" by (simp only: take_GramSchmidt)
  also have "\<dots> = orthogonalize (GramSchmidt (take k Ds)) (Ds ! k)"
    using k by (simp add: GramSchmidt_take_Suc nth_append)
  finally show ?thesis .
qed

section \<open>The invariant of the loop and the returned vector\<close>

lemma ERR_of_first:
  "(dot (vdiv d (Norm2 d)) y)\<^sup>2 * Norm2 d / dot y y = ERR_of y d"
  by (simp add: ERR_of_def dot_vdiv_left)

lemma list_update_zeros:
  "0 < n \<Longrightarrow> (xs @ replicate n (0::real))[length xs := v] = xs @ v # replicate (n - 1) 0"
  by (cases n) (simp_all add: list_update_append)

lemma first_inv:
  assumes "ERR_first y (dot y y) Ds = Inr st"
  shows "loop_inv y Ds 1 st"
proof -
  from assms have q: "length Ds \<noteq> 0"
    by (auto simp: ERR_first_def split: if_splits)
  let ?d = "Ds ! 0"
  from assms q have len: "length ?d = length y"
    by (auto simp: ERR_first_def Let_def split: if_splits)
  from assms q len have nz: "Norm2 ?d \<noteq> 0" "dot y y \<noteq> 0"
    by (auto simp: ERR_first_def Let_def split: if_splits)
  from assms q len nz have st: "st = \<lparr> ERR = (replicate (length Ds) 0)[0 := ERR_of y ?d],
      Psi = [?d], Psi_n = [vdiv ?d (Norm2 ?d)] \<rparr>"
    by (simp add: ERR_first_def Let_def ERR_of_first)
  have tk: "GramSchmidt (take (Suc 0) Ds) = [?d]" "take (Suc 0) Ds = [?d]"
    using q by (cases Ds; simp add: GramSchmidt_single)+
  have "(replicate (length Ds) (0::real))[0 := ERR_of y ?d]
        = [ERR_of y ?d] @ replicate (length Ds - 1) 0"
    using q by (cases "length Ds") simp_all
  then show ?thesis
    using q len nz unfolding loop_inv_def st
    by (simp add: tk GramSchmidt_single nrm_def Suc_leI)
qed

lemma step_inv:
  assumes inv: "loop_inv y Ds col st" and col: "col < length Ds"
    and step: "ERR_step y (dot y y) Ds col st = Inr st'"
  shows "loop_inv y Ds (Suc col) st'"
proof -
  let ?d = "Ds ! col"
  let ?B = "GramSchmidt (take col Ds)"
  from inv have P: "Psi st = ?B" and Pn: "Psi_n st = map nrm ?B"
    and E: "ERR st = map (ERR_of y) ?B @ replicate (length Ds - col) 0"
    and B: "\<forall>c \<in> set ?B. length c = length y \<and> Norm2 c \<noteq> 0"
    and y: "dot y y \<noteq> 0" and c1: "1 \<le> col"
    and raw: "\<forall>d \<in> set (take col Ds). length d = length y"
    by (simp_all add: loop_inv_def)
  from step have len: "length ?d = length y"
    by (auto simp: ERR_step_def Let_def split: if_splits)
  have Om: "vsub ?d (matvec (length y) (Psi_n st) (matTvec (Psi st) ?d)) = orthogonalize ?B ?d"
    using Omega_eq_orthogonalize [of ?B ?d] B len by (simp add: P Pn)
  let ?Om = "orthogonalize ?B ?d"
  from step len Om have nz: "Norm2 ?Om \<noteq> 0"
    by (auto simp: ERR_step_def Let_def split: if_splits)
  from step len Om nz have st': "st' = \<lparr> ERR = (ERR st)[col := ERR_of y ?Om],
      Psi = ?B @ [?Om], Psi_n = map nrm ?B @ [vdiv ?Om (Norm2 ?Om)] \<rparr>"
    by (simp add: ERR_step_def Let_def ERR_of_def P Pn)
  have GS: "GramSchmidt (take (Suc col) Ds) = ?B @ [?Om]"
    using col by (rule GramSchmidt_take_Suc)
  have lenOm: "length ?Om = length y"
    using B len by (simp add: length_orthogonalize)
  have "(map (ERR_of y) ?B @ replicate (length Ds - col) 0)[length (map (ERR_of y) ?B) := ERR_of y ?Om]
        = map (ERR_of y) ?B @ ERR_of y ?Om # replicate (length Ds - col - 1) 0"
    using col by (intro list_update_zeros) simp
  then have E': "(ERR st)[col := ERR_of y ?Om]
        = map (ERR_of y) (?B @ [?Om]) @ replicate (length Ds - Suc col) 0"
    using col by (simp add: E)
  have raw': "\<forall>d \<in> set (take (Suc col) Ds). length d = length y"
    using raw len col by (simp add: take_Suc_conv_app_nth)
  show ?thesis
    unfolding loop_inv_def st' using col y B nz lenOm raw'
    by (simp add: GS E' nrm_def)
qed

lemma loop_char:
  "loop_inv y Ds col st \<Longrightarrow>
   (\<forall>j. 1 \<le> j \<and> j < col \<longrightarrow> sum_list (map (ERR_of y) (GramSchmidt (take j Ds))) < 1) \<Longrightarrow>
   ERR_loop y s2y Ds col st = Inr E \<Longrightarrow> s2y = dot y y \<Longrightarrow>
   \<exists>k. ERR_result y Ds k E"
proof (induction y s2y Ds col st rule: ERR_loop.induct)
  case (1 y s2y Ds col st)
  let ?B = "GramSchmidt (take col Ds)"
  from "1.prems"(1) have P: "Psi st = ?B"
    and E: "ERR st = map (ERR_of y) ?B @ replicate (length Ds - col) 0"
    and B: "\<forall>c \<in> set ?B. length c = length y \<and> Norm2 c \<noteq> 0"
    and y: "dot y y \<noteq> 0" and c1: "1 \<le> col" and cq: "col \<le> length Ds"
    and raw: "\<forall>d \<in> set (take col Ds). length d = length y"
    by (simp_all add: loop_inv_def)
  have sum: "sum_list (take col (ERR st)) = sum_list (map (ERR_of y) ?B)"
    using cq by (simp add: E)
  show ?case
  proof (cases "col < length Ds")
    case False
    with cq have "col = length Ds" by simp
    moreover from False "1.prems"(3) have "E = ERR st"
      by (simp add: ERR_loop.simps)
    ultimately have "ERR_result y Ds col E"
      unfolding ERR_result_def using c1 y B E raw "1.prems"(2) by simp
    then show ?thesis ..
  next
    case True
    show ?thesis
    proof (cases "1 \<le> sum_list (take col (ERR st))")
      case sat: True
      with True "1.prems"(3) have "E = ERR st"
        by (simp add: ERR_loop.simps)
      then have "ERR_result y Ds col E"
        unfolding ERR_result_def using c1 cq y B E raw "1.prems"(2) sat sum by simp
      then show ?thesis ..
    next
      case unsat: False
      with True "1.prems"(3) obtain st' where
        step: "ERR_step y s2y Ds col st = Inr st'" and
        loop: "ERR_loop y s2y Ds (Suc col) st' = Inr E"
        by (auto simp: ERR_loop.simps [of y s2y Ds col st] split: sum.splits)
      have inv': "loop_inv y Ds (Suc col) st'"
        using "1.prems"(1) True step "1.prems"(4) by (auto intro: step_inv)
      have below: "\<forall>j. 1 \<le> j \<and> j < Suc col \<longrightarrow>
          sum_list (map (ERR_of y) (GramSchmidt (take j Ds))) < 1"
        using "1.prems"(2) unsat sum by (auto simp: less_Suc_eq)
      show ?thesis
        using "1.IH" [OF True unsat step inv' below loop "1.prems"(4)] .
    qed
  qed
qed

lemma ComputeERR_char:
  assumes "ComputeERR y Ds = Inr E"
  shows "\<exists>k. ERR_result y Ds k E"
proof -
  from assms obtain st where
    first: "ERR_first y (dot y y) Ds = Inr st" and
    loop: "ERR_loop y (dot y y) Ds 1 st = Inr E"
    by (auto simp: ComputeERR_def split: sum.splits)
  have "loop_inv y Ds 1 st" using first by (rule first_inv)
  moreover have "\<forall>j. 1 \<le> j \<and> j < (1::nat) \<longrightarrow>
      sum_list (map (ERR_of y) (GramSchmidt (take j Ds))) < 1" by simp
  ultimately show ?thesis using loop by (rule loop_char) simp
qed

section \<open>Reading the returned vector\<close>

lemma ERR_result_length: "ERR_result y Ds k E \<Longrightarrow> length E = length Ds"
  by (auto simp: ERR_result_def)

lemma ERR_result_take:
  assumes "ERR_result y Ds k E" and "j \<le> k"
  shows "take j E = map (ERR_of y) (GramSchmidt (take j Ds))"
proof -
  from assms(1) have E: "E = map (ERR_of y) (GramSchmidt (take k Ds)) @ replicate (length Ds - k) 0"
    and k: "k \<le> length Ds"
    by (simp_all add: ERR_result_def)
  have "take j E = map (ERR_of y) (take j (GramSchmidt (take k Ds)))"
    using assms(2) k by (simp add: E take_map)
  also have "take j (GramSchmidt (take k Ds)) = GramSchmidt (take j Ds)"
    using assms(2) by (simp add: take_GramSchmidt min_absorb1)
  finally show ?thesis .
qed

lemma ERR_result_zero:
  assumes "ERR_result y Ds k E" and "k \<le> i" and "i < length Ds"
  shows "E ! i = 0"
proof -
  from assms(1) have E: "E = map (ERR_of y) (GramSchmidt (take k Ds)) @ replicate (length Ds - k) 0"
    and k: "k \<le> length Ds"
    by (simp_all add: ERR_result_def)
  show ?thesis using assms(2,3) k by (simp add: E nth_append)
qed

lemma ERR_result_saturated:
  assumes "ERR_result y Ds k E" and "1 \<le> sum_list (take col E)"
  shows "k \<le> col"
proof (rule ccontr)
  assume "\<not> k \<le> col"
  then have lt: "col < k" by simp
  from lt have le: "col \<le> k" by simp
  have tk: "take col E = map (ERR_of y) (GramSchmidt (take col Ds))"
    using assms(1) le by (rule ERR_result_take)
  show False
  proof (cases "col = 0")
    case True
    with assms(2) show False by simp
  next
    case False
    with lt assms(1) have "sum_list (map (ERR_of y) (GramSchmidt (take col Ds))) < 1"
      by (simp add: ERR_result_def)
    with assms(2) tk show False by simp
  qed
qed

lemma ERR_loop_saturated:
  "col < length Ds \<Longrightarrow> 1 \<le> sum_list (take col (ERR st)) \<Longrightarrow>
   ERR_loop y s2y Ds col st = Inr (ERR st)"
  by (simp add: ERR_loop.simps)


section \<open>Two runs of ComputeERR\<close>

lemma ComputeERR_saturating_run: "ComputeERR [1, 0] [[1, 0], [0, 1]] = Inr [1, 0]"
  by (simp add: ComputeERR_def ERR_first_def ERR_loop.simps Norm2_def vdiv_def Let_def)

lemma ComputeERR_full_run:
  "ComputeERR [1, 2, 3] [[1, 1, 0], [0, 1, 1]] = Inr [9 / 28, 7 / 12]"
  by (simp add: ComputeERR_def ERR_first_def ERR_step_def ERR_loop.simps Norm2_def vdiv_def vsub_def
       vadd_def smul_def matTvec_def Let_def power2_eq_square)

section \<open>The entries are not negative\<close>

lemma ERR_of_nonneg: "0 \<le> ERR_of y c"
proof -
  have "0 \<le> Norm2 c" "0 \<le> dot y y"
    using Norm2_nonneg [of c] Norm2_nonneg [of y] by (simp_all add: Norm2_def)
  then show ?thesis by (simp add: ERR_of_def)
qed

lemma sum_list_replicate_zero [simp]: "sum_list (replicate n (0::real)) = 0"
  by (induction n) simp_all

lemma ERR_result_bounds:
  assumes "ERR_result y Ds k E"
  shows "(\<forall>e \<in> set E. 0 \<le> e) \<and> 0 \<le> sum_list E"
proof -
  from assms have E: "E = map (ERR_of y) (GramSchmidt (take k Ds)) @ replicate (length Ds - k) 0"
    by (simp add: ERR_result_def)
  have nn: "\<forall>e \<in> set E. 0 \<le> e"
    by (auto simp: E ERR_of_nonneg)
  then have "0 \<le> sum_list E" by (simp add: sum_list_nonneg)
  with nn show ?thesis by simp
qed

lemma ComputeERR_bounds:
  "ComputeERR y Ds = Inr E \<Longrightarrow> (\<forall>e \<in> set E. 0 \<le> e) \<and> 0 \<le> sum_list E"
  using ComputeERR_char ERR_result_bounds by blast

text \<open>The exceptions ComputeERR can raise, and the \<open>nan\<close> of a division by zero.\<close>

lemma ERR_first_errors:
  "ERR_first y s2y Ds = Inl e \<Longrightarrow> e = IndexError \<or> e = ShapeError \<or> e = NonFinite"
  by (auto simp: ERR_first_def Let_def split: if_splits)

lemma ERR_step_errors:
  "ERR_step y s2y Ds col st = Inl e \<Longrightarrow> e = ShapeError \<or> e = NonFinite"
  by (auto simp: ERR_step_def Let_def split: if_splits)

lemma ERR_loop_errors:
  "ERR_loop y s2y Ds col st = Inl e \<Longrightarrow> e = ShapeError \<or> e = NonFinite"
proof (induction y s2y Ds col st rule: ERR_loop.induct)
  case (1 y s2y Ds col st)
  show ?case
  proof (cases "col < length Ds \<and> \<not> 1 \<le> sum_list (take col (ERR st))")
    case False
    with "1.prems" show ?thesis
      by (auto simp: ERR_loop.simps [of y s2y Ds col st] split: if_splits)
  next
    case True
    then have col: "col < length Ds" and unsat: "\<not> 1 \<le> sum_list (take col (ERR st))"
      by simp_all
    show ?thesis
    proof (cases "ERR_step y s2y Ds col st")
      case (Inl e')
      with "1.prems" col unsat have "e = e'"
        by (simp add: ERR_loop.simps [of y s2y Ds col st])
      with Inl show ?thesis by (auto dest: ERR_step_errors)
    next
      case (Inr st')
      with "1.prems" col unsat have "ERR_loop y s2y Ds (Suc col) st' = Inl e"
        by (simp add: ERR_loop.simps [of y s2y Ds col st])
      with "1.IH" [OF col unsat Inr] show ?thesis .
    qed
  qed
qed

lemma ComputeERR_errors:
  assumes "ComputeERR y Ds = Inl e"
  shows "e = IndexError \<or> e = ShapeError \<or> e = NonFinite"
proof (cases "ERR_first y (dot y y) Ds")
  case (Inl e')
  with assms have "e = e'" by (simp add: ComputeERR_def)
  with Inl show ?thesis by (auto dest: ERR_first_errors)
next
  case (Inr st)
  with assms have "ERR_loop y (dot y y) Ds 1 st = Inl e" by (simp add: ComputeERR_def)
  then show ?thesis by (auto dest: ERR_loop_errors)
qed

section \<open>The loop over the expansion orders\<close>

lemma order_loop_char:
  "m \<le> n \<Longrightarrow> \<forall>j. m \<le> j \<and> j \<le> n \<longrightarrow> ModelErr Expander y_cut RegMat RegNames j = Inr (var j) \<Longrightarrow>
   \<exists>k. m \<le> k \<and> k \<le> n
     \<and> order_loop Expander y_cut RegMat RegNames thr [m..<Suc n] prev MEV
         = Inr (k, MEV @ map var [m..<Suc k])
     \<and> (\<forall>j. m \<le> j \<and> j < k \<longrightarrow> var j < thr)
     \<and> (thr \<le> var k \<or> k = n)"
proof (induction "n - m" arbitrary: m prev MEV)
  case 0
  then have mn: "m = n" by simp
  have me: "ModelErr Expander y_cut RegMat RegNames n = Inr (var n)"
    using "0.prems"(2) mn by simp
  have "order_loop Expander y_cut RegMat RegNames thr [n..<Suc n] prev MEV
        = Inr (n, MEV @ map var [n..<Suc n])"
    by (simp add: me Let_def)
  then show ?case using mn by auto
next
  case (Suc d)
  then have lt: "m < n" by simp
  have me: "ModelErr Expander y_cut RegMat RegNames m = Inr (var m)"
    using Suc.prems(2) lt by simp
  have unfold: "[m..<Suc n] = m # [Suc m..<Suc n]"
    using lt by (simp add: upt_conv_Cons del: upt_Suc)
  show ?case
  proof (cases "thr \<le> var m")
    case True
    have "order_loop Expander y_cut RegMat RegNames thr (m # [Suc m..<Suc n]) prev MEV
          = Inr (m, MEV @ map var [m..<Suc m])"
      using True by (simp add: me Let_def)
    then have "order_loop Expander y_cut RegMat RegNames thr [m..<Suc n] prev MEV
          = Inr (m, MEV @ map var [m..<Suc m])"
      by (simp only: unfold)
    then show ?thesis using lt True by auto
  next
    case False
    have d: "d = n - Suc m" using Suc.hyps(2) by simp
    have le: "Suc m \<le> n" using lt by simp
    have all: "\<forall>j. Suc m \<le> j \<and> j \<le> n \<longrightarrow> ModelErr Expander y_cut RegMat RegNames j = Inr (var j)"
      using Suc.prems(2) by simp
    from Suc.hyps(1) [OF d le all, of m "MEV @ [var m]"]
    obtain k where k: "Suc m \<le> k" "k \<le> n"
      and run: "order_loop Expander y_cut RegMat RegNames thr [Suc m..<Suc n] m (MEV @ [var m])
                = Inr (k, (MEV @ [var m]) @ map var [Suc m..<Suc k])"
      and below: "\<forall>j. Suc m \<le> j \<and> j < k \<longrightarrow> var j < thr"
      and stop: "thr \<le> var k \<or> k = n"
      by blast
    have "[m..<Suc k] = m # [Suc m..<Suc k]"
      using k by (simp add: upt_conv_Cons del: upt_Suc)
    then have "order_loop Expander y_cut RegMat RegNames thr [m..<Suc n] prev MEV
          = Inr (k, MEV @ map var [m..<Suc k])"
      using False run by (simp add: unfold me Let_def del: upt_Suc)
    moreover have "\<forall>j. m \<le> j \<and> j < k \<longrightarrow> var j < thr"
    proof (intro allI impI)
      fix j assume j: "m \<le> j \<and> j < k"
      show "var j < thr"
      proof (cases "j = m")
        case True
        with False show ?thesis by simp
      next
        case False
        with j below show ?thesis by simp
      qed
    qed
    moreover have "m \<le> k" using k by simp
    ultimately show ?thesis using k stop by blast
  qed
qed

lemma clipped_sum_Inr: "clipped_sum (Inr E) = Inr (min 1 (sum_list E))"
  by (simp add: clipped_sum_def)

section \<open>The fill of the lag grid\<close>

lemma length_grid_set [simp]: "length (grid_set G na nb v) = length G"
  by (simp add: grid_set_def)

lemma grid_set_rows:
  "\<forall>row \<in> set G. length row = w \<Longrightarrow> \<forall>row \<in> set (grid_set G na nb v). length row = w"
proof
  fix row assume rows: "\<forall>row \<in> set G. length row = w" and "row \<in> set (grid_set G na nb v)"
  then have "row \<in> insert ((G ! na)[nb := v]) (set G)"
    using set_update_subset_insert [of G na "(G ! na)[nb := v]"] by (auto simp: grid_set_def)
  moreover have "length ((G ! na)[nb := v]) = w" if "na < length G"
    using rows that by simp
  moreover have "grid_set G na nb v = G" if "\<not> na < length G"
    using that by (simp add: grid_set_def list_update_beyond)
  ultimately show "length row = w"
    using rows \<open>row \<in> set (grid_set G na nb v)\<close> by (cases "na < length G") auto
qed

lemma grid_set_nth:
  "a < length G \<Longrightarrow> b < length (G ! a) \<Longrightarrow>
   grid_set G na nb v ! a ! b = (if a = na \<and> b = nb then v else G ! a ! b)"
proof (cases "a = na")
  case True
  assume "a < length G" and "b < length (G ! a)"
  with True show ?thesis by (simp add: grid_set_def nth_list_update)
next
  case False
  then show ?thesis by (simp add: grid_set_def)
qed

lemma new_grid_nth:
  assumes "a \<le> snd MaxLags" and "b \<le> fst MaxLags"
  shows "new_grid MaxLags ! a ! b = None"
proof -
  have "a < snd MaxLags + 1" "b < fst MaxLags + 1" using assms by simp_all
  then show ?thesis unfolding new_grid_def by (simp only: nth_replicate)
qed

lemma new_grid_inv: "fill_inv Lagger Expander x y ModelOrder MaxLags (new_grid MaxLags) 0 0"
proof -
  have "length (new_grid MaxLags) = snd MaxLags + 1"
    unfolding new_grid_def by (simp only: length_replicate)
  moreover have "\<forall>row \<in> set (new_grid MaxLags). length row = fst MaxLags + 1"
    unfolding new_grid_def by (auto simp del: replicate_Suc)
  ultimately show ?thesis by (simp add: fill_inv_def new_grid_nth)
qed

lemma clamp_index: "nat (max (int n - 1) 0) = n - 1"
  by simp

lemma fill_cell_inv:
  assumes inv: "fill_inv Lagger Expander x y ModelOrder MaxLags G na nb"
    and na: "na \<le> snd MaxLags" and nb: "nb \<le> fst MaxLags"
    and step: "fill_cell Lagger Expander x y ModelOrder G na nb = Inr G'"
  shows "fill_inv Lagger Expander x y ModelOrder MaxLags G' na (Suc nb)"
proof -
  from inv have lenG: "length G = snd MaxLags + 1"
    and rows: "\<forall>row \<in> set G. length row = fst MaxLags + 1"
    and cells: "\<And>a b. a \<le> snd MaxLags \<Longrightarrow> b \<le> fst MaxLags \<Longrightarrow>
           (if a < na \<or> (a = na \<and> b < nb)
            then cell_ok Lagger Expander x y ModelOrder G a b
            else G ! a ! b = None)"
    by (simp_all add: fill_inv_def)
  have row: "length (G ! a) = fst MaxLags + 1" if "a \<le> snd MaxLags" for a
    using rows lenG that by simp
  let ?sc = "0 < na \<and> 0 < nb \<and> G ! (na - 1) ! nb = Some 1 \<and> G ! na ! (nb - 1) = Some 1"
  have self: "G ! na ! nb = None" using cells [OF na nb] by simp
  have cond: "(G ! nat (max (int na - 1) 0) ! nb = Some 1
               \<and> G ! na ! nat (max (int nb - 1) 0) = Some 1) \<longleftrightarrow> ?sc"
  proof (cases "na = 0 \<or> nb = 0")
    case True
    then show ?thesis unfolding clamp_index using self by auto
  next
    case False
    then show ?thesis unfolding clamp_index by simp
  qed
  have "\<exists>v. G' = grid_set G na nb (Some v)
          \<and> (if ?sc then v = 1 else cell_value Lagger Expander x y ModelOrder nb na = Inr v)"
  proof (cases ?sc)
    case True
    with cond have "G ! nat (max (int na - 1) 0) ! nb = Some 1
               \<and> G ! na ! nat (max (int nb - 1) 0) = Some 1" by blast
    with step have "G' = grid_set G na nb (Some 1)"
      by (simp add: fill_cell_def)
    with True show ?thesis by (intro exI [of _ 1]) simp
  next
    case False
    with cond have "\<not> (G ! nat (max (int na - 1) 0) ! nb = Some 1
               \<and> G ! na ! nat (max (int nb - 1) 0) = Some 1)" by blast
    with step have "(case cell_value Lagger Expander x y ModelOrder nb na of
             Inl e \<Rightarrow> Inl e
           | Inr v \<Rightarrow> Inr (grid_set G na nb (Some v))) = Inr G'"
      by (simp only: fill_cell_def if_False)
    then obtain v where "cell_value Lagger Expander x y ModelOrder nb na = Inr v"
      and "G' = grid_set G na nb (Some v)"
      by (cases "cell_value Lagger Expander x y ModelOrder nb na") auto
    with False show ?thesis by auto
  qed
  then obtain v where G': "G' = grid_set G na nb (Some v)"
    and v: "if ?sc then v = 1 else cell_value Lagger Expander x y ModelOrder nb na = Inr v"
    by blast
  have get: "G' ! a ! b = (if a = na \<and> b = nb then Some v else G ! a ! b)"
    if "a \<le> snd MaxLags" "b \<le> fst MaxLags" for a b
    unfolding G' using that lenG row [OF that(1)] by (intro grid_set_nth) simp_all
  have lenG': "length G' = snd MaxLags + 1" by (simp add: G' lenG)
  have rows': "\<forall>row \<in> set G'. length row = fst MaxLags + 1"
    unfolding G' using rows by (rule grid_set_rows)
  have "if a < na \<or> (a = na \<and> b < Suc nb)
        then cell_ok Lagger Expander x y ModelOrder G' a b
        else G' ! a ! b = None"
    if a: "a \<le> snd MaxLags" and b: "b \<le> fst MaxLags" for a b
  proof (cases "a = na \<and> b = nb")
    case True
    have up: "G' ! (na - 1) ! nb = G ! (na - 1) ! nb" if "0 < na"
    proof -
      from that na have "na - 1 \<noteq> na" "na - 1 \<le> snd MaxLags" by arith+
      with get [of "na - 1" nb] nb show ?thesis by auto
    qed
    have left: "G' ! na ! (nb - 1) = G ! na ! (nb - 1)" if "0 < nb"
    proof -
      from that nb have "nb - 1 \<noteq> nb" "nb - 1 \<le> fst MaxLags" by arith+
      with get [of na "nb - 1"] na show ?thesis by auto
    qed
    have "G' ! na ! nb = Some v" using get [OF na nb] by simp
    moreover have "(0 < na \<and> 0 < nb \<and> G' ! (na - 1) ! nb = Some 1 \<and> G' ! na ! (nb - 1) = Some 1)
                   \<longleftrightarrow> ?sc"
      using up left by auto
    ultimately have "cell_ok Lagger Expander x y ModelOrder G' na nb"
      using v unfolding cell_ok_def by auto
    with True show ?thesis by simp
  next
    case False
    show ?thesis
    proof (cases "a < na \<or> (a = na \<and> b < nb)")
      case before: True
      with cells [OF a b] have ok: "cell_ok Lagger Expander x y ModelOrder G a b" by simp
      have same: "G' ! a ! b = G ! a ! b" using get [OF a b] False by simp
      have up: "G' ! (a - 1) ! b = G ! (a - 1) ! b" if "0 < a"
      proof -
        from that a before have "\<not> (a - 1 = na \<and> b = nb)" "a - 1 \<le> snd MaxLags" by arith+
        with get [of "a - 1" b] b show ?thesis by auto
      qed
      have left: "G' ! a ! (b - 1) = G ! a ! (b - 1)" if "0 < b"
      proof -
        from that b before have "\<not> (a = na \<and> b - 1 = nb)" "b - 1 \<le> fst MaxLags" by arith+
        with get [of a "b - 1"] a show ?thesis by auto
      qed
      have "(0 < a \<and> 0 < b \<and> G' ! (a - 1) ! b = Some 1 \<and> G' ! a ! (b - 1) = Some 1)
            \<longleftrightarrow> (0 < a \<and> 0 < b \<and> G ! (a - 1) ! b = Some 1 \<and> G ! a ! (b - 1) = Some 1)"
        using up left by auto
      with ok same have "cell_ok Lagger Expander x y ModelOrder G' a b"
        unfolding cell_ok_def by simp
      with before show ?thesis by auto
    next
      case after: False
      with cells [OF a b] have "G ! a ! b = None" by simp
      with get [OF a b] False after show ?thesis by auto
    qed
  qed
  with lenG' rows' show ?thesis by (simp add: fill_inv_def)
qed

lemma fill_row_inv:
  "fill_inv Lagger Expander x y ModelOrder MaxLags G na nb \<Longrightarrow> na \<le> snd MaxLags \<Longrightarrow>
   nb \<le> fst MaxLags + 1 \<Longrightarrow>
   fill_row Lagger Expander x y ModelOrder na [nb..<fst MaxLags + 1] G = Inr G' \<Longrightarrow>
   fill_inv Lagger Expander x y ModelOrder MaxLags G' na (fst MaxLags + 1)"
proof (induction "fst MaxLags + 1 - nb" arbitrary: nb G)
  case 0
  then have "nb = fst MaxLags + 1" by simp
  with "0.prems" show ?case by simp
next
  case (Suc d)
  then have lt: "nb < fst MaxLags + 1" by simp
  then have unfold: "[nb..<fst MaxLags + 1] = nb # [Suc nb..<fst MaxLags + 1]"
    by (simp add: upt_conv_Cons)
  from Suc.prems(4) obtain G1 where
    step: "fill_cell Lagger Expander x y ModelOrder G na nb = Inr G1" and
    rest: "fill_row Lagger Expander x y ModelOrder na [Suc nb..<fst MaxLags + 1] G1 = Inr G'"
    unfolding unfold by (auto split: sum.splits)
  have nb: "nb \<le> fst MaxLags" using lt by simp
  have inv1: "fill_inv Lagger Expander x y ModelOrder MaxLags G1 na (Suc nb)"
    using Suc.prems(1,2) nb step by (rule fill_cell_inv)
  have d: "d = fst MaxLags + 1 - Suc nb" using Suc.hyps(2) by simp
  have le: "Suc nb \<le> fst MaxLags + 1" using lt by simp
  show ?case using Suc.hyps(1) [OF d inv1 Suc.prems(2) le rest] .
qed

lemma fill_inv_next_row:
  assumes "fill_inv Lagger Expander x y ModelOrder MaxLags G na (fst MaxLags + 1)"
  shows "fill_inv Lagger Expander x y ModelOrder MaxLags G (Suc na) 0"
proof -
  from assms have lenG: "length G = snd MaxLags + 1"
    and rows: "\<forall>row \<in> set G. length row = fst MaxLags + 1"
    and cells: "\<And>a b. a \<le> snd MaxLags \<Longrightarrow> b \<le> fst MaxLags \<Longrightarrow>
           (if a < na \<or> (a = na \<and> b < fst MaxLags + 1)
            then cell_ok Lagger Expander x y ModelOrder G a b
            else G ! a ! b = None)"
    by (simp_all add: fill_inv_def)
  have "if a < Suc na \<or> (a = Suc na \<and> b < 0)
        then cell_ok Lagger Expander x y ModelOrder G a b
        else G ! a ! b = None"
    if a: "a \<le> snd MaxLags" and b: "b \<le> fst MaxLags" for a b
  proof -
    have "(a < na \<or> (a = na \<and> b < fst MaxLags + 1)) \<longleftrightarrow> (a < Suc na \<or> (a = Suc na \<and> b < 0))"
      using b by auto
    with cells [OF a b] show ?thesis by (simp only:)
  qed
  with lenG rows show ?thesis unfolding fill_inv_def by blast
qed

lemma fill_grid_inv:
  "fill_inv Lagger Expander x y ModelOrder MaxLags G na 0 \<Longrightarrow> na \<le> snd MaxLags + 1 \<Longrightarrow>
   fill_grid Lagger Expander x y ModelOrder MaxLags [na..<snd MaxLags + 1] G = Inr G' \<Longrightarrow>
   fill_inv Lagger Expander x y ModelOrder MaxLags G' (snd MaxLags + 1) 0"
proof (induction "snd MaxLags + 1 - na" arbitrary: na G)
  case 0
  then have "na = snd MaxLags + 1" by simp
  with "0.prems" show ?case by simp
next
  case (Suc d)
  then have lt: "na < snd MaxLags + 1" by simp
  then have unfold: "[na..<snd MaxLags + 1] = na # [Suc na..<snd MaxLags + 1]"
    by (simp add: upt_conv_Cons)
  from Suc.prems(3) obtain G1 where
    row: "fill_row Lagger Expander x y ModelOrder na [0..<fst MaxLags + 1] G = Inr G1" and
    rest: "fill_grid Lagger Expander x y ModelOrder MaxLags [Suc na..<snd MaxLags + 1] G1 = Inr G'"
    unfolding unfold by (auto split: sum.splits)
  have na: "na \<le> snd MaxLags" using lt by simp
  have "fill_inv Lagger Expander x y ModelOrder MaxLags G1 na (fst MaxLags + 1)"
    using Suc.prems(1) na _ row by (rule fill_row_inv) simp
  then have inv1: "fill_inv Lagger Expander x y ModelOrder MaxLags G1 (Suc na) 0"
    by (rule fill_inv_next_row)
  have d: "d = snd MaxLags + 1 - Suc na" using Suc.hyps(2) by simp
  have le: "Suc na \<le> snd MaxLags + 1" using lt by simp
  show ?case using Suc.hyps(1) [OF d inv1 le rest] .
qed

lemma MaxLagsEstimator_grid:
  assumes "MaxLagsEstimator Lagger Expander x y ModelOrder MaxLags thr Plot SaveFig = Inr out"
  shows "fill_inv Lagger Expander x y (nat ModelOrder) MaxLags (Grid out) (snd MaxLags + 1) 0
         \<and> Recommendations out = recommend (Grid out) MaxLags thr
         \<and> Warning out = warns (Grid out) thr"
proof -
  from assms obtain G where
    fill: "fill_grid Lagger Expander x y (nat ModelOrder) MaxLags [0..<snd MaxLags + 1]
             (new_grid MaxLags) = Inr G" and
    out: "out = \<lparr> Recommendations = recommend G MaxLags thr, Grid = G, Warning = warns G thr \<rparr>"
    by (auto simp: MaxLagsEstimator_def split: if_splits sum.splits)
  have "fill_inv Lagger Expander x y (nat ModelOrder) MaxLags G (snd MaxLags + 1) 0"
    using new_grid_inv _ fill by (rule fill_grid_inv) simp
  then show ?thesis by (simp add: out)
qed

lemma clipped_sum_bounds:
  assumes "clipped_sum (ComputeERR y Ds) = Inr v"
  shows "0 \<le> v \<and> v \<le> 1"
proof (cases "ComputeERR y Ds")
  case (Inl e)
  with assms have "v = 1" by (simp add: clipped_sum_def split: if_splits)
  then show ?thesis by simp
next
  case (Inr E)
  with assms have v: "v = min 1 (sum_list E)" by (simp add: clipped_sum_def)
  from ComputeERR_bounds [OF Inr] have "0 \<le> sum_list E" by blast
  with v show ?thesis by simp
qed

lemma cell_value_bounds:
  assumes "cell_value Lagger Expander x y ModelOrder nb na = Inr v"
  shows "0 \<le> v \<and> v \<le> 1"
  using assms by (auto simp: cell_value_def split: prod.splits dest: clipped_sum_bounds)

lemma cell_ok_bounds:
  assumes "cell_ok Lagger Expander x y ModelOrder G na nb"
  shows "\<exists>v. G ! na ! nb = Some v \<and> 0 \<le> v \<and> v \<le> 1"
proof -
  from assms obtain v where v: "G ! na ! nb = Some v"
    and c: "v = 1 \<or> cell_value Lagger Expander x y ModelOrder nb na = Inr v"
    unfolding cell_ok_def by (auto split: if_splits)
  from c have "0 \<le> v \<and> v \<le> 1"
    using cell_value_bounds by auto
  with v show ?thesis by blast
qed

lemma fill_inv_final:
  assumes "fill_inv Lagger Expander x y ModelOrder MaxLags G (snd MaxLags + 1) 0"
    and "na \<le> snd MaxLags" and "nb \<le> fst MaxLags"
  shows "cell_ok Lagger Expander x y ModelOrder G na nb"
proof -
  from assms(1) have "if na < snd MaxLags + 1 \<or> (na = snd MaxLags + 1 \<and> nb < 0)
      then cell_ok Lagger Expander x y ModelOrder G na nb else G ! na ! nb = None"
    using assms(2,3) unfolding fill_inv_def by blast
  with assms(2) show ?thesis by simp
qed

lemma scan_XY_none:
  "\<forall>(na, nb) \<in> set ps. \<not> exceeds thr (G ! na ! nb) \<Longrightarrow> scan_XY G thr ps acc = acc"
proof (induction ps arbitrary: acc)
  case Nil
  show ?case by simp
next
  case (Cons p ps)
  obtain na nb where p: "p = (na, nb)" by (cases p)
  obtain b r where acc: "acc = (b, r)" by (cases acc)
  from Cons.prems p have "\<not> exceeds thr (G ! na ! nb)" by simp
  moreover from Cons.prems have "\<forall>(na, nb) \<in> set ps. \<not> exceeds thr (G ! na ! nb)" by simp
  ultimately show ?case using Cons.IH by (simp add: p acc)
qed

lemma argmax_bool_none: "\<forall>b \<in> set bs. \<not> b \<Longrightarrow> argmax_bool bs = 0"
proof -
  assume "\<forall>b \<in> set bs. \<not> b"
  then have "takeWhile Not bs = bs" by (simp add: takeWhile_eq_all_conv)
  then have "length (takeWhile Not bs) = length bs" by (rule arg_cong)
  then show ?thesis unfolding argmax_bool_def Let_def by simp
qed

lemma scan_Y_none:
  "\<forall>na \<in> set nas. \<forall>c \<in> set (G ! na). \<not> exceeds thr c \<Longrightarrow> scan_Y G thr nas rec = rec"
proof (induction nas)
  case Nil
  show ?case by simp
next
  case (Cons na nas)
  then have "argmax_bool (map (exceeds thr) (G ! na)) = 0"
    by (intro argmax_bool_none) simp
  with Cons show ?case by simp
qed

lemma scan_X_none:
  "\<forall>nb \<in> set nbs. \<forall>row \<in> set G. \<not> exceeds thr (row ! nb) \<Longrightarrow> scan_X G thr nbs rec = rec"
proof (induction nbs)
  case Nil
  show ?case by simp
next
  case (Cons nb nbs)
  then have "argmax_bool (map (\<lambda>row. exceeds thr (row ! nb)) G) = 0"
    by (intro argmax_bool_none) simp
  with Cons show ?case by simp
qed

lemma recommend_corner:
  assumes len: "length G = snd MaxLags + 1" and rows: "\<forall>row \<in> set G. length row = fst MaxLags + 1"
    and none: "\<forall>na \<le> snd MaxLags. \<forall>nb \<le> fst MaxLags. \<not> exceeds thr (G ! na ! nb)"
  shows "recommend G MaxLags thr = \<lparr> Min_XY = MaxLags, Min_X = MaxLags, Min_Y = MaxLags \<rparr>"
proof -
  let ?ps = "concat (map (\<lambda>na. map (\<lambda>nb. (na, nb)) [0..<fst MaxLags + 1]) [0..<snd MaxLags + 1])"
  have "\<forall>(na, nb) \<in> set ?ps. \<not> exceeds thr (G ! na ! nb)"
    using none by auto
  then have xy: "scan_XY G thr ?ps (None, MaxLags) = (None, MaxLags)"
    by (rule scan_XY_none)
  have cell: "\<not> exceeds thr c" if "na \<le> snd MaxLags" "c \<in> set (G ! na)" for na c
  proof -
    from that(1) len have "G ! na \<in> set G" by simp
    with rows have l: "length (G ! na) = fst MaxLags + 1" by blast
    from that(2) obtain nb where "nb < length (G ! na)" "G ! na ! nb = c"
      by (auto simp: in_set_conv_nth)
    with l none that(1) show ?thesis by auto
  qed
  have "\<forall>na \<in> set [0..<snd MaxLags + 1]. \<forall>c \<in> set (G ! na). \<not> exceeds thr c"
  proof (intro ballI)
    fix na c
    assume "na \<in> set [0..<snd MaxLags + 1]" and c: "c \<in> set (G ! na)"
    then have "na \<le> snd MaxLags" by auto
    then show "\<not> exceeds thr c" using c by (rule cell)
  qed
  then have y: "scan_Y G thr [0..<snd MaxLags + 1] MaxLags = MaxLags"
    by (rule scan_Y_none)
  have col: "\<not> exceeds thr (row ! nb)" if "nb \<le> fst MaxLags" "row \<in> set G" for nb row
  proof -
    from that(2) obtain na where "na < length G" "G ! na = row"
      by (auto simp: in_set_conv_nth)
    with len none that(1) show ?thesis by auto
  qed
  have "\<forall>nb \<in> set [0..<fst MaxLags + 1]. \<forall>row \<in> set G. \<not> exceeds thr (row ! nb)"
  proof (intro ballI)
    fix nb row
    assume "nb \<in> set [0..<fst MaxLags + 1]" and row: "row \<in> set G"
    then have "nb \<le> fst MaxLags" by auto
    then show "\<not> exceeds thr (row ! nb)" using row by (rule col)
  qed
  then have x: "scan_X G thr [0..<fst MaxLags + 1] MaxLags = MaxLags"
    by (rule scan_X_none)
  show ?thesis unfolding recommend_def by (simp only: xy x y snd_conv)
qed

lemma MaxLagsEstimator_corner:
  assumes run: "MaxLagsEstimator Lagger Expander x y ModelOrder MaxLags thr Plot SaveFig = Inr out"
    and none: "\<forall>na \<le> snd MaxLags. \<forall>nb \<le> fst MaxLags. \<not> exceeds thr (Grid out ! na ! nb)"
  shows "Recommendations out = \<lparr> Min_XY = MaxLags, Min_X = MaxLags, Min_Y = MaxLags \<rparr>"
proof -
  from MaxLagsEstimator_grid [OF run]
  have inv: "fill_inv Lagger Expander x y (nat ModelOrder) MaxLags (Grid out) (snd MaxLags + 1) 0"
    and rec: "Recommendations out = recommend (Grid out) MaxLags thr"
    by blast+
  from inv have len: "length (Grid out) = snd MaxLags + 1"
    and rows: "\<forall>row \<in> set (Grid out). length row = fst MaxLags + 1"
    by (simp_all add: fill_inv_def)
  from len rows none have "recommend (Grid out) MaxLags thr
      = \<lparr> Min_XY = MaxLags, Min_X = MaxLags, Min_Y = MaxLags \<rparr>"
    by (rule recommend_corner)
  with rec show ?thesis by simp
qed

lemma cell_value_unfold:
  assumes "cell_value Lagger Expander x y ModelOrder nb na = Inr v"
  shows "\<exists>y_cut RegMat RegNames RegMat' RegNames'.
           Lagger (x, y) (nb, na) = (y_cut, RegMat, RegNames)
           \<and> Expander RegMat RegNames ModelOrder = (RegMat', RegNames')
           \<and> (case ComputeERR (map (\<lambda>t. t - sum_list y_cut / real (length y_cut)) y_cut)
                     (map (\<lambda>c. map (\<lambda>t. t - sum_list c / real (length c)) c) RegMat') of
                 Inl e \<Rightarrow> e = NonFinite \<and> v = 1
               | Inr E \<Rightarrow> v = min 1 (sum_list E))"
proof -
  obtain y_cut RegMat RegNames where L: "Lagger (x, y) (nb, na) = (y_cut, RegMat, RegNames)"
    by (cases "Lagger (x, y) (nb, na)")
  obtain RegMat' RegNames' where E: "Expander RegMat RegNames ModelOrder = (RegMat', RegNames')"
    by (cases "Expander RegMat RegNames ModelOrder")
  let ?r = "ComputeERR (map (\<lambda>t. t - sum_list y_cut / real (length y_cut)) y_cut)
              (map (\<lambda>c. map (\<lambda>t. t - sum_list c / real (length c)) c) RegMat')"
  from assms L E have cs: "clipped_sum ?r = Inr v"
    by (simp add: cell_value_def center_def [abs_def] center_columns_def mean_def)
  have "case ?r of Inl e \<Rightarrow> e = NonFinite \<and> v = 1 | Inr E \<Rightarrow> v = min 1 (sum_list E)"
  proof (cases ?r)
    case (Inl e)
    with cs show ?thesis by (simp add: clipped_sum_def split: if_splits)
  next
    case (Inr E)
    with cs show ?thesis by (simp add: clipped_sum_def)
  qed
  with L E show ?thesis by blast
qed

section \<open>Runs of MaxLagsEstimator\<close>

text \<open>
  The runs take a lag builder that gives the output and the input as the only regressor
  whatever the lags, and an expander that leaves the matrix as it is.
\<close>

lemma center_example: "center [1, - 1] = [1, - 1]"
  by (simp add: center_def mean_def)

lemma ComputeERR_single_run: "ComputeERR [1, - 1] [[1, - 1]] = Inr [1]"
  by (simp add: ComputeERR_def ERR_first_def ERR_loop.simps Norm2_def vdiv_def Let_def)

lemma cell_value_example:
  "cell_value (\<lambda>(x, y) lags. (y, [x], [])) (\<lambda>M N k. (M, N)) [1, - 1] [1, - 1] mo nb na = Inr 1"
  by (simp add: cell_value_def center_columns_def center_example ComputeERR_single_run clipped_sum_def)

lemmas grid_eval = MaxLagsEstimator_def new_grid_def fill_cell_def grid_set_def cell_value_example
  recommend_def exceeds_def argmax_bool_def warns_def grid_max_def

lemma MaxLagsEstimator_run_1_0:
  "MaxLagsEstimator (\<lambda>(x, y) lags. (y, [x], [])) (\<lambda>M N k. (M, N)) [1, - 1] [1, - 1] 1 (1, 0)
     (98 / 100) False None
   = Inr \<lparr> Recommendations = \<lparr> Min_XY = (0, 0), Min_X = (1, 0), Min_Y = (1, 0) \<rparr>,
           Grid = [[Some 1, Some 1]], Warning = False \<rparr>"
  by (simp add: grid_eval)

lemma MaxLagsEstimator_run_1_1:
  "MaxLagsEstimator (\<lambda>(x, y) lags. (y, [x], [])) (\<lambda>M N k. (M, N)) [1, - 1] [1, - 1] 1 (1, 1)
     (98 / 100) False None
   = Inr \<lparr> Recommendations = \<lparr> Min_XY = (0, 0), Min_X = (1, 1), Min_Y = (1, 1) \<rparr>,
           Grid = [[Some 1, Some 1], [Some 1, Some 1]], Warning = False \<rparr>"
  by (simp add: grid_eval)

text \<open>
  A run with a lag builder that adds the reversed input as a second regressor for an
  input lag above 0, and an expander that raises every entry to the power of the order.
\<close>

lemma ComputeERR_one_column_run: "ComputeERR [1, 0, - 1] [[1, - 1, 0]] = Inr [1 / 4]"
  by (simp add: ComputeERR_def ERR_first_def ERR_loop.simps Norm2_def vdiv_def Let_def
       power2_eq_square)

lemma ComputeERR_two_column_run:
  "ComputeERR [1, 0, - 1] [[1, - 1, 0], [0, - 1, 1]] = Inr [1 / 4, 3 / 4]"
  by (simp add: ComputeERR_def ERR_first_def ERR_step_def ERR_loop.simps Norm2_def vdiv_def
       vsub_def vadd_def smul_def matTvec_def Let_def power2_eq_square)

lemma center_examples:
  "center [1, 0, - 1] = [1, 0, - 1]" "center [1, - 1, 0] = [1, - 1, 0]"
  "center [0, - 1, 1] = [0, - 1, 1]"
  by (simp_all add: center_def mean_def)

lemma cell_value_lagged_0:
  "cell_value (\<lambda>(x, y) (nb, na). (y, if nb = 0 then [x] else [x, rev x], []))
     (\<lambda>M N k. (map (map (\<lambda>t. t ^ k)) M, N)) [1, - 1, 0] [1, 0, - 1] (Suc 0) 0 0 = Inr (1 / 4)"
  by (simp add: cell_value_def center_columns_def center_examples ComputeERR_one_column_run
       clipped_sum_def)

lemma cell_value_lagged_1:
  "cell_value (\<lambda>(x, y) (nb, na). (y, if nb = 0 then [x] else [x, rev x], []))
     (\<lambda>M N k. (map (map (\<lambda>t. t ^ k)) M, N)) [1, - 1, 0] [1, 0, - 1] (Suc 0) (Suc 0) 0 = Inr 1"
  by (simp add: cell_value_def center_columns_def center_examples ComputeERR_two_column_run
       clipped_sum_def)

lemma MaxLagsEstimator_lagged_run:
  "MaxLagsEstimator (\<lambda>(x, y) (nb, na). (y, if nb = 0 then [x] else [x, rev x], []))
     (\<lambda>M N k. (map (map (\<lambda>t. t ^ k)) M, N)) [1, - 1, 0] [1, 0, - 1] 1 (1, 0) (98 / 100) False None
   = Inr \<lparr> Recommendations = \<lparr> Min_XY = (1, 0), Min_X = (1, 0), Min_Y = (1, 0) \<rparr>,
           Grid = [[Some (1 / 4), Some 1]], Warning = False \<rparr>"
  by (simp add: MaxLagsEstimator_def new_grid_def fill_cell_def grid_set_def
       cell_value_lagged_0 cell_value_lagged_1
       recommend_def exceeds_def argmax_bool_def warns_def grid_max_def)

section \<open>The claims about ComputeERR\<close>

text \<open>
  Claim C2.  The returned vector has one entry per column of \<open>Ds\<close>; if the sum of the
  entries before some column \<open>col\<close> is at least 1, every entry from \<open>col\<close> on is 0, and the
  loop, finding that sum when it reaches \<open>col\<close>, returns at once.
\<close>

theorem ComputeERR_length_saturation:
  assumes "ComputeERR y Ds = Inr E"
  shows "length E = length Ds
         \<and> (\<forall>col i. 1 \<le> sum_list (take col E) \<and> col \<le> i \<and> i < length Ds \<longrightarrow> E ! i = 0)
         \<and> (\<forall>col st s2y. col < length Ds \<and> 1 \<le> sum_list (take col (ERR st))
              \<longrightarrow> ERR_loop y s2y Ds col st = Inr (ERR st))"
proof -
  from assms obtain k where k: "ERR_result y Ds k E"
    using ComputeERR_char by blast
  have 1: "length E = length Ds" using k by (rule ERR_result_length)
  have 2: "\<forall>col i. 1 \<le> sum_list (take col E) \<and> col \<le> i \<and> i < length Ds \<longrightarrow> E ! i = 0"
  proof (intro allI impI)
    fix col i
    assume h: "1 \<le> sum_list (take col E) \<and> col \<le> i \<and> i < length Ds"
    then have sat: "1 \<le> sum_list (take col E)" and ci: "col \<le> i" and iq: "i < length Ds"
      by simp_all
    have "k \<le> col" using k sat by (rule ERR_result_saturated)
    with ci have "k \<le> i" by simp
    with k show "E ! i = 0" using iq by (rule ERR_result_zero)
  qed
  have 3: "\<forall>col st s2y. col < length Ds \<and> 1 \<le> sum_list (take col (ERR st))
              \<longrightarrow> ERR_loop y s2y Ds col st = Inr (ERR st)"
    by (simp add: ERR_loop_saturated)
  from 1 2 3 show ?thesis by blast
qed

theorem ComputeERR_length_saturation_witness:
  "ComputeERR [1, 0] [[1, 0], [0, 1]] = Inr [1, 0]
   \<and> length [1, 0 :: real] = length [[1, 0], [0, 1 :: real]]
   \<and> 1 \<le> sum_list (take 1 [1, 0 :: real])
   \<and> [1, 0 :: real] ! 1 = 0"
proof -
  have run: "ComputeERR [1, 0] [[1, 0], [0, 1]] = Inr [1, 0]"
    by (rule ComputeERR_saturating_run)
  have sat: "1 \<le> sum_list (take 1 [1, 0 :: real]) \<and> (1::nat) \<le> 1 \<and> 1 < length [[1, 0], [0, 1 :: real]]"
    by simp
  from ComputeERR_length_saturation [OF run]
  have len: "length [1, 0 :: real] = length [[1, 0], [0, 1 :: real]]"
    and zero: "\<forall>col i. 1 \<le> sum_list (take col [1, 0 :: real]) \<and> col \<le> i \<and> i < length [[1, 0], [0, 1 :: real]]
          \<longrightarrow> [1, 0 :: real] ! i = 0"
    by blast+
  from zero sat have "[1, 0 :: real] ! 1 = 0" by blast
  with run len sat show ?thesis by blast
qed

text \<open>
  Claim C3, as amended.  On every input on which ComputeERR raises no exception,
  \<open>min(1.0, sum of the entries of the returned vector)\<close>, the value its two callers take
  in lines 321 and 401, lies in the interval from 0 to 1: it is the clipped sum of the
  entries, and 1 when a division by zero has made them \<open>nan\<close>.  The sum itself is not in
  the interval for every input: with the zero output vector \<open>s2y\<close> is 0 and the entry
  \<open>0 * n_Omega / 0\<close> is \<open>nan\<close>.
\<close>

theorem ComputeERR_clipped_sum_bounds:
  assumes "ComputeERR y Ds \<noteq> Inl IndexError" and "ComputeERR y Ds \<noteq> Inl ShapeError"
  shows "\<exists>v. clipped_sum (ComputeERR y Ds) = Inr v \<and> 0 \<le> v \<and> v \<le> 1
           \<and> (\<forall>E. ComputeERR y Ds = Inr E \<longrightarrow> v = min 1 (sum_list E))
           \<and> (ComputeERR y Ds = Inl NonFinite \<longrightarrow> v = 1)"
proof (cases "ComputeERR y Ds")
  case (Inl e)
  with assms ComputeERR_errors [OF Inl] have e: "e = NonFinite" by auto
  with Inl have "clipped_sum (ComputeERR y Ds) = Inr 1" by (simp add: clipped_sum_def)
  with Inl show ?thesis by simp
next
  case (Inr E)
  then have v: "clipped_sum (ComputeERR y Ds) = Inr (min 1 (sum_list E))"
    by (simp add: clipped_sum_def)
  from clipped_sum_bounds [OF v] have "0 \<le> min 1 (sum_list E) \<and> min 1 (sum_list E) \<le> 1" .
  with v Inr show ?thesis by simp
qed

theorem ComputeERR_clipped_sum_bounds_witness:
  "(\<exists>v. clipped_sum (ComputeERR [1, 2, 3] [[1, 1, 0], [0, 1, 1]]) = Inr v \<and> 0 \<le> v \<and> v \<le> 1
      \<and> (\<forall>E. ComputeERR [1, 2, 3] [[1, 1, 0], [0, 1, 1]] = Inr E \<longrightarrow> v = min 1 (sum_list E))
      \<and> (ComputeERR [1, 2, 3] [[1, 1, 0], [0, 1, 1]] = Inl NonFinite \<longrightarrow> v = 1))
   \<and> (\<exists>v. clipped_sum (ComputeERR [0] [[1]]) = Inr v \<and> 0 \<le> v \<and> v \<le> 1
      \<and> (\<forall>E. ComputeERR [0] [[1]] = Inr E \<longrightarrow> v = min 1 (sum_list E))
      \<and> (ComputeERR [0] [[1]] = Inl NonFinite \<longrightarrow> v = 1))"
proof -
  have a: "ComputeERR [1, 2, 3] [[1, 1, 0], [0, 1, 1]] \<noteq> Inl IndexError"
    and b: "ComputeERR [1, 2, 3] [[1, 1, 0], [0, 1, 1]] \<noteq> Inl ShapeError"
    by (simp_all add: ComputeERR_full_run)
  have nan: "ComputeERR [0] [[1]] = Inl NonFinite"
    by (simp add: ComputeERR_def ERR_first_def Norm2_def)
  have c: "ComputeERR [0] [[1]] \<noteq> Inl IndexError"
    and d: "ComputeERR [0] [[1]] \<noteq> Inl ShapeError"
    by (simp_all add: nan)
  show ?thesis
    by (intro conjI ComputeERR_clipped_sum_bounds [OF a b] ComputeERR_clipped_sum_bounds [OF c d])
qed

theorem ComputeERR_zero_output_counterexample:
  "ComputeERR [0] [[1]] = Inl NonFinite"
  by (simp add: ComputeERR_def ERR_first_def Norm2_def)

section \<open>The claims about the estimators\<close>

text \<open>
  Claim C6.  On a valid input (signals of one length, \<open>MaxOrder\<close> at least 1, no exception
  from ComputeERR at any order up to \<open>MaxOrder\<close>), with \<open>var j\<close> the explained variance
  \<open>min(1, sum of the ERR vector)\<close> of order \<open>j\<close>, ExpansionOrderEstimator returns the
  smallest order from 1 to \<open>MaxOrder\<close> whose variance reaches the threshold, or \<open>MaxOrder\<close>
  when none does, together with the sequence that starts with 0 and has the variance of
  every evaluated order after it.
\<close>

theorem ExpansionOrderEstimator_smallest_order:
  assumes "length x = length y" and "1 \<le> MaxOrder"
    and "Lagger (x, y) MaxLags = (y_cut, RegMat, RegNames)"
    and "\<forall>j. 1 \<le> j \<and> int j \<le> MaxOrder \<longrightarrow>
           ModelErr Expander (center y_cut) RegMat RegNames j = Inr (var j)"
  shows "\<exists>k. 1 \<le> k \<and> int k \<le> MaxOrder
           \<and> ExpansionOrderEstimator Lagger Expander x y MaxLags MaxOrder thr
               = Inr (k, 0 # map var [1..<Suc k])
           \<and> (\<forall>j. 1 \<le> j \<and> j < k \<longrightarrow> var j < thr)
           \<and> (thr \<le> var k \<or> int k = MaxOrder)
           \<and> (\<forall>j E. 1 \<le> j \<and> int j \<le> MaxOrder
                 \<and> ComputeERR (center y_cut) (center_columns (fst (Expander RegMat RegNames j))) = Inr E
                 \<longrightarrow> var j = min 1 (sum_list E))"
proof -
  let ?n = "nat MaxOrder"
  have n: "1 \<le> ?n" using assms(2) by simp
  have all: "\<forall>j. 1 \<le> j \<and> j \<le> ?n \<longrightarrow> ModelErr Expander (center y_cut) RegMat RegNames j = Inr (var j)"
    using assms(2,4) by (auto simp: le_nat_iff)
  from order_loop_char [OF n all, of thr 0 "[0]"]
  obtain k where k: "1 \<le> k" "k \<le> ?n"
    and run: "order_loop Expander (center y_cut) RegMat RegNames thr [1..<Suc ?n] 0 [0]
              = Inr (k, [0] @ map var [1..<Suc k])"
    and below: "\<forall>j. 1 \<le> j \<and> j < k \<longrightarrow> var j < thr"
    and stop: "thr \<le> var k \<or> k = ?n"
    by blast
  have res: "ExpansionOrderEstimator Lagger Expander x y MaxLags MaxOrder thr
        = Inr (k, 0 # map var [1..<Suc k])"
    using assms(1,2,3) run by (simp add: ExpansionOrderEstimator_def del: upt_Suc)
  have kM: "int k \<le> MaxOrder" using k(2) assms(2) by simp
  have stop': "thr \<le> var k \<or> int k = MaxOrder" using stop assms(2) by auto
  have val: "\<forall>j E. 1 \<le> j \<and> int j \<le> MaxOrder
        \<and> ComputeERR (center y_cut) (center_columns (fst (Expander RegMat RegNames j))) = Inr E
        \<longrightarrow> var j = min 1 (sum_list E)"
  proof (intro allI impI)
    fix j E
    assume h: "1 \<le> j \<and> int j \<le> MaxOrder
        \<and> ComputeERR (center y_cut) (center_columns (fst (Expander RegMat RegNames j))) = Inr E"
    with assms(4) have "ModelErr Expander (center y_cut) RegMat RegNames j = Inr (var j)" by simp
    with h show "var j = min 1 (sum_list E)"
      by (simp add: ModelErr_def clipped_sum_Inr)
  qed
  from k(1) kM res below stop' val show ?thesis by blast
qed

theorem ExpansionOrderEstimator_smallest_order_witness:
  "ExpansionOrderEstimator (\<lambda>(x, y) lags. (y, [x], [])) (\<lambda>M N k. (M, N))
     [1, - 1] [1, - 1] (1, 0) 3 (98 / 100) = Inr (1, [0, 1])"
proof -
  let ?L = "(\<lambda>(x, y) lags. (y, [x], [])) :: lagger"
  let ?E = "(\<lambda>M N k. (M, N)) :: expander"
  have len: "length [1, - 1 :: real] = length [1, - 1 :: real]" by simp
  have ord: "(1::int) \<le> 3" by simp
  have lag: "?L ([1, - 1], [1, - 1]) (1, 0) = ([1, - 1], [[1, - 1]], [])" by simp
  have cen: "center [1, - 1] = [1, - 1]" by (simp add: center_def mean_def)
  have run: "ComputeERR [1, - 1] [[1, - 1]] = Inr [1]"
    by (simp add: ComputeERR_def ERR_first_def ERR_loop.simps Norm2_def vdiv_def Let_def)
  have var: "\<forall>j. 1 \<le> j \<and> int j \<le> 3 \<longrightarrow>
      ModelErr ?E (center [1, - 1]) [[1, - 1]] [] j = Inr ((\<lambda>j. 1) j)"
    by (simp add: ModelErr_def center_columns_def cen run clipped_sum_def)
  from ExpansionOrderEstimator_smallest_order
    [where Lagger = ?L and Expander = ?E and x = "[1, - 1]" and y = "[1, - 1]" and MaxLags = "(1, 0)"
       and MaxOrder = 3 and y_cut = "[1, - 1]" and RegMat = "[[1, - 1]]" and RegNames = "[]"
       and var = "\<lambda>j. 1" and thr = "98 / 100", OF len ord lag var]
  obtain k where k: "1 \<le> k"
    and res: "ExpansionOrderEstimator ?L ?E [1, - 1] [1, - 1] (1, 0) 3 (98 / 100)
              = Inr (k, 0 # map (\<lambda>j. 1) [1..<Suc k])"
    and below: "\<forall>j. 1 \<le> j \<and> j < k \<longrightarrow> (1::real) < 98 / 100"
    by blast
  have "\<not> 1 < k"
  proof
    assume "1 < k"
    with below have "(1::real) < 98 / 100" by blast
    then show False by simp
  qed
  with k have "k = 1" by simp
  with res show ?thesis by simp
qed

text \<open>
  Claim C7, as amended.  The grid MaxLagsEstimator returns has \<open>MaxLags[1] + 1\<close> rows, one
  for every output lag \<open>na\<close>, of \<open>MaxLags[0] + 1\<close> entries each, one for every input lag
  \<open>nb\<close>: its first axis is the output lag.  With \<open>MaxLags = (1, 0)\<close> the grid is one row of
  two cells, not two rows of one.
\<close>

theorem MaxLagsEstimator_grid_shape:
  assumes "MaxLagsEstimator Lagger Expander x y ModelOrder MaxLags thr Plot SaveFig = Inr out"
  shows "length (Grid out) = snd MaxLags + 1
         \<and> (\<forall>na. na \<le> snd MaxLags \<longrightarrow> length (Grid out ! na) = fst MaxLags + 1)"
proof -
  from MaxLagsEstimator_grid [OF assms]
  have "fill_inv Lagger Expander x y (nat ModelOrder) MaxLags (Grid out) (snd MaxLags + 1) 0"
    by blast
  then have len: "length (Grid out) = snd MaxLags + 1"
    and rows: "\<forall>row \<in> set (Grid out). length row = fst MaxLags + 1"
    by (simp_all add: fill_inv_def)
  have "length (Grid out ! na) = fst MaxLags + 1" if "na \<le> snd MaxLags" for na
  proof -
    from that len have "Grid out ! na \<in> set (Grid out)" by simp
    with rows show ?thesis by blast
  qed
  with len show ?thesis by blast
qed

theorem MaxLagsEstimator_grid_shape_witness:
  "MaxLagsEstimator (\<lambda>(x, y) lags. (y, [x], [])) (\<lambda>M N k. (M, N)) [1, - 1] [1, - 1] 1 (1, 0)
     (98 / 100) False None
   = Inr \<lparr> Recommendations = \<lparr> Min_XY = (0, 0), Min_X = (1, 0), Min_Y = (1, 0) \<rparr>,
           Grid = [[Some 1, Some 1]], Warning = False \<rparr>
   \<and> length (Grid \<lparr> Recommendations = \<lparr> Min_XY = (0, 0), Min_X = (1, 0), Min_Y = (1, 0) \<rparr>,
           Grid = [[Some 1, Some 1]], Warning = False \<rparr>) = snd (1 :: nat, 0 :: nat) + 1
   \<and> length (Grid \<lparr> Recommendations = \<lparr> Min_XY = (0, 0), Min_X = (1, 0), Min_Y = (1, 0) \<rparr>,
           Grid = [[Some 1, Some 1]], Warning = False \<rparr> ! 0) = fst (1 :: nat, 0 :: nat) + 1"
proof -
  note shape = MaxLagsEstimator_grid_shape [OF MaxLagsEstimator_run_1_0]
  have row: "(0::nat) \<le> snd (1 :: nat, 0 :: nat)" by simp
  show ?thesis
    by (intro conjI MaxLagsEstimator_run_1_0 shape [THEN conjunct1]
          shape [THEN conjunct2, rule_format, OF row])
qed

theorem MaxLagsEstimator_first_axis_counterexample:
  "MaxLagsEstimator (\<lambda>(x, y) lags. (y, [x], [])) (\<lambda>M N k. (M, N)) [1, - 1] [1, - 1] 1 (1, 0)
     (98 / 100) False None
   = Inr \<lparr> Recommendations = \<lparr> Min_XY = (0, 0), Min_X = (1, 0), Min_Y = (1, 0) \<rparr>,
           Grid = [[Some 1, Some 1]], Warning = False \<rparr>
   \<and> length [[Some 1, Some (1 :: real)]] \<noteq> fst (1 :: nat, 0 :: nat) + 1"
  by (intro conjI MaxLagsEstimator_run_1_0) simp

text \<open>
  Claim C8.  In the grid MaxLagsEstimator returns, a cell \<open>(na, nb)\<close> holds the 1 of the
  shortcut exactly when the cell one output lag lower and the cell one input lag lower
  both exist and hold 1; every other cell, and so every cell of row 0 and of column 0,
  whose clamped neighbour is the cell itself while it is still \<open>nan\<close>, holds
  \<open>min(1, sum of the ERR vector)\<close> that ComputeERR gives for the output of
  \<open>Lagger\<close> at exactly \<open>(nb, na)\<close> minus its mean and the regressors of \<open>Lagger\<close> at
  \<open>(nb, na)\<close>, expanded by \<open>Expander\<close> to \<open>ModelOrder\<close>, each column minus its mean; where
  a division by zero makes the sum \<open>nan\<close> that minimum is 1.
\<close>

theorem MaxLagsEstimator_cells:
  assumes "MaxLagsEstimator Lagger Expander x y ModelOrder MaxLags thr Plot SaveFig = Inr out"
  shows "\<forall>na nb. na \<le> snd MaxLags \<and> nb \<le> fst MaxLags \<longrightarrow>
           (\<exists>v. Grid out ! na ! nb = Some v
              \<and> (if 0 < na \<and> 0 < nb \<and> Grid out ! (na - 1) ! nb = Some 1
                    \<and> Grid out ! na ! (nb - 1) = Some 1
                  then v = 1
                  else (\<exists>y_cut RegMat RegNames RegMat' RegNames'.
                          Lagger (x, y) (nb, na) = (y_cut, RegMat, RegNames)
                          \<and> Expander RegMat RegNames (nat ModelOrder) = (RegMat', RegNames')
                          \<and> (case ComputeERR
                                     (map (\<lambda>t. t - sum_list y_cut / real (length y_cut)) y_cut)
                                     (map (\<lambda>c. map (\<lambda>t. t - sum_list c / real (length c)) c) RegMat') of
                                Inl e \<Rightarrow> e = NonFinite \<and> v = 1
                              | Inr E \<Rightarrow> v = min 1 (sum_list E)))))"
proof (intro allI impI)
  fix na nb
  assume h: "na \<le> snd MaxLags \<and> nb \<le> fst MaxLags"
  from h have na: "na \<le> snd MaxLags" and nb: "nb \<le> fst MaxLags" by simp_all
  let ?sc = "0 < na \<and> 0 < nb \<and> Grid out ! (na - 1) ! nb = Some 1
               \<and> Grid out ! na ! (nb - 1) = Some 1"
  from MaxLagsEstimator_grid [OF assms]
  have "fill_inv Lagger Expander x y (nat ModelOrder) MaxLags (Grid out) (snd MaxLags + 1) 0"
    by blast
  then have "cell_ok Lagger Expander x y (nat ModelOrder) (Grid out) na nb"
    using na nb by (rule fill_inv_final)
  then obtain v where v: "Grid out ! na ! nb = Some v"
    and c: "if ?sc then v = 1 else cell_value Lagger Expander x y (nat ModelOrder) nb na = Inr v"
    unfolding cell_ok_def by blast
  show "\<exists>v. Grid out ! na ! nb = Some v
              \<and> (if ?sc
                  then v = 1
                  else (\<exists>y_cut RegMat RegNames RegMat' RegNames'.
                          Lagger (x, y) (nb, na) = (y_cut, RegMat, RegNames)
                          \<and> Expander RegMat RegNames (nat ModelOrder) = (RegMat', RegNames')
                          \<and> (case ComputeERR
                                     (map (\<lambda>t. t - sum_list y_cut / real (length y_cut)) y_cut)
                                     (map (\<lambda>c. map (\<lambda>t. t - sum_list c / real (length c)) c) RegMat') of
                                Inl e \<Rightarrow> e = NonFinite \<and> v = 1
                              | Inr E \<Rightarrow> v = min 1 (sum_list E))))"
  proof (cases ?sc)
    case True
    with c have "v = 1" by simp
    with v True show ?thesis by (intro exI [of _ v]) (simp only: if_True simp_thms)
  next
    case False
    with c have "cell_value Lagger Expander x y (nat ModelOrder) nb na = Inr v" by simp
    from cell_value_unfold [OF this] have "\<exists>y_cut RegMat RegNames RegMat' RegNames'.
        Lagger (x, y) (nb, na) = (y_cut, RegMat, RegNames)
        \<and> Expander RegMat RegNames (nat ModelOrder) = (RegMat', RegNames')
        \<and> (case ComputeERR
                   (map (\<lambda>t. t - sum_list y_cut / real (length y_cut)) y_cut)
                   (map (\<lambda>c. map (\<lambda>t. t - sum_list c / real (length c)) c) RegMat') of
              Inl e \<Rightarrow> e = NonFinite \<and> v = 1
            | Inr E \<Rightarrow> v = min 1 (sum_list E))" .
    with v False show ?thesis by (intro exI [of _ v]) (simp only: if_False simp_thms)
  qed
qed

theorem MaxLagsEstimator_cells_witness:
  "(\<exists>v. Grid \<lparr> Recommendations = \<lparr> Min_XY = (1, 0), Min_X = (1, 0), Min_Y = (1, 0) \<rparr>,
            Grid = [[Some (1 / 4), Some 1]], Warning = False \<rparr> ! 0 ! 0 = Some v
      \<and> (if 0 < (0::nat) \<and> 0 < (0::nat)
            \<and> Grid \<lparr> Recommendations = \<lparr> Min_XY = (1, 0), Min_X = (1, 0), Min_Y = (1, 0) \<rparr>,
            Grid = [[Some (1 / 4), Some 1]], Warning = False \<rparr> ! (0 - 1) ! 0 = Some 1
            \<and> Grid \<lparr> Recommendations = \<lparr> Min_XY = (1, 0), Min_X = (1, 0), Min_Y = (1, 0) \<rparr>,
            Grid = [[Some (1 / 4), Some 1]], Warning = False \<rparr> ! 0 ! (0 - 1) = Some 1
          then v = 1
          else (\<exists>y_cut RegMat RegNames RegMat' RegNames'.
                  ((\<lambda>(x, y) (nb, na). (y, if nb = 0 then [x] else [x, rev x], [])) :: lagger) ([1, - 1, 0], [1, 0, - 1]) (0, 0) = (y_cut, RegMat, RegNames)
                  \<and> ((\<lambda>M N k. (map (map (\<lambda>t. t ^ k)) M, N)) :: expander) RegMat RegNames (nat 1) = (RegMat', RegNames')
                  \<and> (case ComputeERR
                             (map (\<lambda>t. t - sum_list y_cut / real (length y_cut)) y_cut)
                             (map (\<lambda>c. map (\<lambda>t. t - sum_list c / real (length c)) c) RegMat') of
                        Inl e \<Rightarrow> e = NonFinite \<and> v = 1
                      | Inr E \<Rightarrow> v = min 1 (sum_list E)))))
   \<and> (\<exists>v. Grid \<lparr> Recommendations = \<lparr> Min_XY = (0, 0), Min_X = (1, 1), Min_Y = (1, 1) \<rparr>,
            Grid = [[Some 1, Some 1], [Some 1, Some 1]], Warning = False \<rparr> ! 1 ! 1 = Some v
      \<and> (if 0 < (1::nat) \<and> 0 < (1::nat)
            \<and> Grid \<lparr> Recommendations = \<lparr> Min_XY = (0, 0), Min_X = (1, 1), Min_Y = (1, 1) \<rparr>,
            Grid = [[Some 1, Some 1], [Some 1, Some 1]], Warning = False \<rparr> ! (1 - 1) ! 1 = Some 1
            \<and> Grid \<lparr> Recommendations = \<lparr> Min_XY = (0, 0), Min_X = (1, 1), Min_Y = (1, 1) \<rparr>,
            Grid = [[Some 1, Some 1], [Some 1, Some 1]], Warning = False \<rparr> ! 1 ! (1 - 1) = Some 1
          then v = 1
          else (\<exists>y_cut RegMat RegNames RegMat' RegNames'.
                  ((\<lambda>(x, y) lags. (y, [x], [])) :: lagger) ([1, - 1], [1, - 1]) (1, 1) = (y_cut, RegMat, RegNames)
                  \<and> ((\<lambda>M N k. (M, N)) :: expander) RegMat RegNames (nat 1) = (RegMat', RegNames')
                  \<and> (case ComputeERR
                             (map (\<lambda>t. t - sum_list y_cut / real (length y_cut)) y_cut)
                             (map (\<lambda>c. map (\<lambda>t. t - sum_list c / real (length c)) c) RegMat') of
                        Inl e \<Rightarrow> e = NonFinite \<and> v = 1
                      | Inr E \<Rightarrow> v = min 1 (sum_list E)))))"
proof -
  have computed: "(0::nat) \<le> snd (1 :: nat, 0 :: nat) \<and> (0::nat) \<le> fst (1 :: nat, 0 :: nat)" by simp
  have shortcut: "(1::nat) \<le> snd (1 :: nat, 1 :: nat) \<and> (1::nat) \<le> fst (1 :: nat, 1 :: nat)" by simp
  show ?thesis
    by (intro conjI
          MaxLagsEstimator_cells [OF MaxLagsEstimator_lagged_run, rule_format, OF computed]
          MaxLagsEstimator_cells [OF MaxLagsEstimator_run_1_1, rule_format, OF shortcut])
qed

text \<open>
  Claim C9.  Evaluating the code on a grid whose maximum equals the threshold: no cell
  exceeds the threshold 1 and the three recommendations are the corner \<open>(1, 0)\<close>, but the
  test \<open>np.max(Grid) < VarianceAcceptThreshold\<close> is false and no warning is printed.
\<close>

theorem MaxLagsEstimator_threshold_equal_to_maximum:
  "MaxLagsEstimator (\<lambda>(x, y) lags. (y, [x], [])) (\<lambda>M N k. (M, N)) [1, - 1] [1, - 1] 1 (1, 0)
     1 False None
   = Inr \<lparr> Recommendations = \<lparr> Min_XY = (1, 0), Min_X = (1, 0), Min_Y = (1, 0) \<rparr>,
           Grid = [[Some 1, Some 1]], Warning = False \<rparr>"
  by (simp add: grid_eval)

text \<open>
  Claim C10.  Every cell of the grid MaxLagsEstimator returns is assigned, and its value
  lies between 0 and 1.
\<close>

theorem MaxLagsEstimator_cells_assigned:
  assumes "MaxLagsEstimator Lagger Expander x y ModelOrder MaxLags thr Plot SaveFig = Inr out"
  shows "\<forall>na nb. na \<le> snd MaxLags \<and> nb \<le> fst MaxLags \<longrightarrow>
           (\<exists>v. Grid out ! na ! nb = Some v \<and> 0 \<le> v \<and> v \<le> 1)"
proof (intro allI impI)
  fix na nb
  assume h: "na \<le> snd MaxLags \<and> nb \<le> fst MaxLags"
  from h have na: "na \<le> snd MaxLags" and nb: "nb \<le> fst MaxLags" by simp_all
  from MaxLagsEstimator_grid [OF assms]
  have "fill_inv Lagger Expander x y (nat ModelOrder) MaxLags (Grid out) (snd MaxLags + 1) 0"
    by blast
  then have "cell_ok Lagger Expander x y (nat ModelOrder) (Grid out) na nb"
    using na nb by (rule fill_inv_final)
  then show "\<exists>v. Grid out ! na ! nb = Some v \<and> 0 \<le> v \<and> v \<le> 1"
    by (rule cell_ok_bounds)
qed

theorem MaxLagsEstimator_cells_assigned_witness:
  "\<exists>v. Grid \<lparr> Recommendations = \<lparr> Min_XY = (0, 0), Min_X = (1, 0), Min_Y = (1, 0) \<rparr>,
           Grid = [[Some 1, Some 1]], Warning = False \<rparr> ! 0 ! 1 = Some v \<and> 0 \<le> v \<and> v \<le> 1"
proof -
  have cell: "(0::nat) \<le> snd (1 :: nat, 0 :: nat) \<and> (1::nat) \<le> fst (1 :: nat, 0 :: nat)" by simp
  show ?thesis
    by (rule MaxLagsEstimator_cells_assigned [OF MaxLagsEstimator_run_1_0, rule_format, OF cell])
qed


end
